theory Spec2Isabelle
  imports Complex_Main
begin

section \<open>Machine integers, faults and buffers\<close>

text \<open>
  The C++ \<open>int\<close> is a 32-bit two's complement integer: a signed operation whose
  mathematical result leaves the range is undefined behaviour and is a fault of the
  model; unsigned arithmetic wraps.
\<close>

datatype fault = OutOfBounds | SignedOverflow | Diverges | AllocFailed

definition u32 :: "int \<Rightarrow> int" where
  "u32 v = v mod 2 ^ 32"

definition s32 :: "int \<Rightarrow> int" where
  "s32 v = (v + 2 ^ 31) mod 2 ^ 32 - 2 ^ 31"

definition chk32 :: "int \<Rightarrow> fault + int" where
  "chk32 v = (if - (2 ^ 31) \<le> v \<and> v < 2 ^ 31 then Inr v else Inl SignedOverflow)"

definition seq :: "fault + 'a \<Rightarrow> ('a \<Rightarrow> fault + 'b) \<Rightarrow> fault + 'b" where
  "seq m f = (case m of Inl e \<Rightarrow> Inl e | Inr v \<Rightarrow> f v)"

text \<open>A buffer is a list of elements; an access outside it is a fault.\<close>

definition rd :: "'a list \<Rightarrow> int \<Rightarrow> fault + 'a" where
  "rd b k = (if 0 \<le> k \<and> k < int (length b) then Inr (b ! nat k) else Inl OutOfBounds)"

definition wr :: "'a list \<Rightarrow> int \<Rightarrow> 'a \<Rightarrow> fault + 'a list" where
  "wr b k v = (if 0 \<le> k \<and> k < int (length b) then Inr (b[nat k := v]) else Inl OutOfBounds)"

section \<open>The element type\<close>

text \<open>
  The kernel is a template over its element type \<open>T\<close>, instantiated for \<open>float\<close> and
  \<open>double\<close> (lines 118 and 119).  The model is polymorphic in \<open>T\<close> and takes the
  operations the kernel applies to values of \<open>T\<close> as a record: the two constants
  \<open>static_cast<T>(0)\<close> and \<open>static_cast<T>(1e-5)\<close>, the conversion of an \<open>int\<close> operand
  (\<open>hidden_size\<close> in \<open>shared[batch_block_idx] / hidden_size\<close>), the four arithmetic
  operators, and CUDA's library function \<open>rsqrt\<close>.  Every operation rounds as \<open>T\<close>
  does; none is assumed to be exact, associative or free of overflow.

  An expression \<open>a * b + c\<close> is a separate operation: the compiler may contract it
  into one fused multiply-add, which rounds once (\<open>nvcc\<close> does so unless told
  otherwise), or round the product and then the sum.  The kernel has two of them,
  \<open>sumsq += diff * diff\<close> and \<open>\<dots> * alpha[i] + beta[i]\<close>.
\<close>

record 'a arith =
  zero_T :: 'a
  eps_T :: 'a
  of_int_T :: "int \<Rightarrow> 'a"
  plus_T :: "'a \<Rightarrow> 'a \<Rightarrow> 'a"
  minus_T :: "'a \<Rightarrow> 'a \<Rightarrow> 'a"
  times_T :: "'a \<Rightarrow> 'a \<Rightarrow> 'a"
  divide_T :: "'a \<Rightarrow> 'a \<Rightarrow> 'a"
  muladd_T :: "'a \<Rightarrow> 'a \<Rightarrow> 'a \<Rightarrow> 'a"
  rsqrt_T :: "'a \<Rightarrow> 'a"

subsection \<open>Single precision\<close>

text \<open>
  \<open>float\<close> is IEEE 754 binary32: a value is finite, an infinity (with its sign,
  \<open>True\<close> for negative) or not a number.  A finite value is kept as the real number
  it denotes: every operation returns a number of the format, and the elements of the
  buffers a run starts from are meant to be such numbers.  The two zeros are not told
  apart, and a zero divisor counts as \<open>+0\<close>.  (\<open>double\<close>, binary64, differs in the widths
  only; what is proved for every arithmetic below covers it.)
\<close>

datatype f32 = Fin real | Infty bool | NaN

text \<open>The number of binary digits of a natural number.\<close>

fun bitlen :: "nat \<Rightarrow> nat" where
  "bitlen n = (if n = 0 then 0 else bitlen (n div 2) + 1)"

definition pow2 :: "int \<Rightarrow> real" where
  "pow2 e = (if 0 \<le> e then 2 ^ nat e else 1 / 2 ^ nat (- e))"

text \<open>For \<open>q > 0\<close>, the exponent \<open>e\<close> with \<open>2\<^sup>e \<le> q < 2\<^sup>e\<^sup>+\<^sup>1\<close>.\<close>

definition ilog2 :: "real \<Rightarrow> int" where
  "ilog2 q = (if 1 \<le> q then int (bitlen (nat \<lfloor>q\<rfloor>)) - 1
              else - int (bitlen (nat (\<lceil>1 / q\<rceil> - 1))))"

text \<open>
  Rounding to the nearest integer, a tie to the even one: of \<open>f = \<lfloor>q\<rfloor>\<close> and \<open>f + 1\<close> the
  one nearer to \<open>q\<close>.
\<close>

definition nearest_even :: "int \<Rightarrow> real \<Rightarrow> int" where
  "nearest_even f q =
     (if q - of_int f < 1 / 2 then f else if 1 / 2 < q - of_int f then f + 1
      else if even f then f else f + 1)"

definition rne :: "real \<Rightarrow> int" where
  "rne q = nearest_even \<lfloor>q\<rfloor> q"

text \<open>Rounding to a multiple of \<open>2\<^sup>e\<close>.\<close>

definition round_to :: "int \<Rightarrow> real \<Rightarrow> real" where
  "round_to e q = of_int (rne (q / pow2 e)) * pow2 e"

text \<open>A rounded magnitude of \<open>2\<^sup>1\<^sup>2\<^sup>8\<close> or more is an infinity.\<close>

definition overflow32 :: "bool \<Rightarrow> real \<Rightarrow> f32" where
  "overflow32 negative v = (if 2 ^ 128 \<le> \<bar>v\<bar> then Infty negative else Fin v)"

text \<open>
  Rounding a real number to binary32, in the default mode (to nearest, ties to even):
  24 significant bits, the exponent of the last place no less than \<open>-149\<close>
  (subnormal numbers), then the check for overflow.
\<close>

definition round32 :: "real \<Rightarrow> f32" where
  "round32 q =
     (if q = 0 then Fin 0
      else overflow32 (q < 0) (round_to (max (ilog2 \<bar>q\<bar>) (- 126) - 23) q))"

definition neg32 :: "f32 \<Rightarrow> f32" where
  "neg32 a = (case a of Fin x \<Rightarrow> Fin (- x) | Infty s \<Rightarrow> Infty (\<not> s) | NaN \<Rightarrow> NaN)"

definition add32 :: "f32 \<Rightarrow> f32 \<Rightarrow> f32" where
  "add32 a b =
     (case (a, b) of
        (Fin x, Fin y) \<Rightarrow> round32 (x + y)
      | (Fin x, Infty t) \<Rightarrow> Infty t
      | (Infty s, Fin y) \<Rightarrow> Infty s
      | (Infty s, Infty t) \<Rightarrow> (if s = t then Infty s else NaN)
      | _ \<Rightarrow> NaN)"

definition sub32 :: "f32 \<Rightarrow> f32 \<Rightarrow> f32" where
  "sub32 a b = add32 a (neg32 b)"

definition mul32 :: "f32 \<Rightarrow> f32 \<Rightarrow> f32" where
  "mul32 a b =
     (case (a, b) of
        (Fin x, Fin y) \<Rightarrow> round32 (x * y)
      | (Fin x, Infty t) \<Rightarrow> (if x = 0 then NaN else Infty ((x < 0) \<noteq> t))
      | (Infty s, Fin y) \<Rightarrow> (if y = 0 then NaN else Infty (s \<noteq> (y < 0)))
      | (Infty s, Infty t) \<Rightarrow> Infty (s \<noteq> t)
      | _ \<Rightarrow> NaN)"

definition div32 :: "f32 \<Rightarrow> f32 \<Rightarrow> f32" where
  "div32 a b =
     (case (a, b) of
        (Fin x, Fin y) \<Rightarrow>
          (if y = 0 then (if x = 0 then NaN else Infty (x < 0)) else round32 (x / y))
      | (Fin x, Infty t) \<Rightarrow> Fin 0
      | (Infty s, Fin y) \<Rightarrow> Infty (s \<noteq> (y < 0))
      | _ \<Rightarrow> NaN)"

text \<open>
  \<open>a * b + c\<close>: fused, the exact product and sum rounded once; otherwise the rounded
  product added to \<open>c\<close>.
\<close>

definition muladd32 :: "bool \<Rightarrow> f32 \<Rightarrow> f32 \<Rightarrow> f32 \<Rightarrow> f32" where
  "muladd32 fused a b c =
     (if fused then
        (case (a, b) of
           (Fin x, Fin y) \<Rightarrow> (case c of Fin z \<Rightarrow> round32 (x * y + z) | _ \<Rightarrow> c)
         | _ \<Rightarrow> add32 (mul32 a b) c)
      else add32 (mul32 a b) c)"

text \<open>
  The operations of \<open>float\<close>.  \<open>static_cast<float>(1e-5)\<close> is the binary32 number nearest
  to \<open>1e-5\<close> (rounding the \<open>double\<close> literal first gives the same number), and an \<open>int\<close>
  operand is converted by rounding.  Whether the compiler fuses \<open>a * b + c\<close> is the
  parameter \<open>fused\<close>.  CUDA specifies \<open>rsqrt\<close> on \<open>float\<close> up to an error of two units in
  the last place only, so the function is the parameter \<open>rsq\<close>.
\<close>

definition binary32 :: "bool \<Rightarrow> (f32 \<Rightarrow> f32) \<Rightarrow> f32 arith" where
  "binary32 fused rsq =
     \<lparr>zero_T = Fin 0, eps_T = round32 (1 / 100000), of_int_T = (\<lambda>n. round32 (of_int n)),
      plus_T = add32, minus_T = sub32, times_T = mul32, divide_T = div32,
      muladd_T = muladd32 fused, rsqrt_T = rsq\<rparr>"

subsection \<open>Exact arithmetic\<close>

text \<open>
  The real numbers with their exact operations: what \<open>T\<close> approximates.  Here
  \<open>rsqrt\<close> is the reciprocal of the square root.
\<close>

definition rsqrt :: "real \<Rightarrow> real" where
  "rsqrt v = 1 / sqrt v"

definition exact :: "real arith" where
  "exact =
     \<lparr>zero_T = 0, eps_T = 1 / 100000, of_int_T = real_of_int,
      plus_T = (+), minus_T = (-), times_T = (*), divide_T = (/),
      muladd_T = (\<lambda>a b c. a * b + c), rsqrt_T = rsqrt\<rparr>"

section \<open>The layer-normalization kernel\<close>

text \<open>
  Global memory as the kernel sees it: the five buffers behind its pointer arguments.
  The buffers are distinct allocations (the kernel takes \<open>alpha\<close>, \<open>beta\<close> and \<open>x\<close>
  as pointers to \<open>const\<close>).
\<close>

record 'a device_mem =
  mem_alpha :: "'a list"
  mem_beta :: "'a list"
  mem_x :: "'a list"
  mem_y :: "'a list"
  mem_cache :: "'a list"

text \<open>
  What one thread knows: the kernel's scalar arguments and the built-in variables
  \<open>blockDim\<close>, \<open>blockIdx\<close> and \<open>threadIdx\<close>.
\<close>

record thread_ctx =
  batch_size :: int
  hidden_size :: int
  blockDim_x :: nat
  blockDim_y :: nat
  blockIdx_x :: nat
  threadIdx_x :: nat
  threadIdx_y :: nat

text \<open>
  The state a thread block works on: its shared array, the register \<open>mean\<close> of each of
  its threads (indexed by the thread's position in \<open>block_threads\<close>), and global memory.
\<close>

record 'a block_state =
  shared :: "'a list"
  mean_reg :: "'a list"
  mem :: "'a device_mem"

text \<open>Lines 30 to 39: the values every thread derives from its indices.\<close>

definition batch :: "thread_ctx \<Rightarrow> int" where
  "batch c = s32 (u32 (int (blockDim_x c) * int (blockIdx_x c) + int (threadIdx_x c)))"

definition returned :: "thread_ctx \<Rightarrow> bool" where
  "returned c = (batch c \<ge> batch_size c)"

definition index :: "thread_ctx \<Rightarrow> int" where
  "index c = s32 (int (threadIdx_y c))"

definition stride :: "thread_ctx \<Rightarrow> int" where
  "stride c = s32 (int (blockDim_y c))"

definition batch_idx :: "thread_ctx \<Rightarrow> fault + int" where
  "batch_idx c = chk32 (batch c * hidden_size c)"

definition batch_block_idx :: "thread_ctx \<Rightarrow> int" where
  "batch_block_idx c = s32 (u32 (int (threadIdx_x c) * u32 (stride c)))"

text \<open>The position of a thread in its block's register file.\<close>

definition lane :: "thread_ctx \<Rightarrow> int" where
  "lane c = int (threadIdx_x c * blockDim_y c + threadIdx_y c)"

text \<open>
  Lines 44 to 46: \<open>for (int i = index; i < hidden_size; i += stride) sum += x[batch_idx + i]\<close>.
  With a stride that is not positive the loop would not advance.
\<close>

function sum_loop :: "'a arith \<Rightarrow> 'a list \<Rightarrow> int \<Rightarrow> int \<Rightarrow> int \<Rightarrow> int \<Rightarrow> 'a \<Rightarrow> fault + 'a" where
  "sum_loop A xs bi hs st i acc =
     (if i < hs then
        (if st \<le> 0 then Inl Diverges else
         (case chk32 (bi + i) of Inl e \<Rightarrow> Inl e | Inr k \<Rightarrow>
          (case rd xs k of Inl e \<Rightarrow> Inl e | Inr v \<Rightarrow>
           (case chk32 (i + st) of Inl e \<Rightarrow> Inl e | Inr i' \<Rightarrow>
              sum_loop A xs bi hs st i' (plus_T A acc v)))))
      else Inr acc)"
  by pat_completeness auto
termination
  by (relation "measure (\<lambda>(A, xs, bi, hs, st, i, acc). nat (hs - i))")
     (auto simp: chk32_def split: if_splits)

text \<open>
  Lines 62 to 65: the same loop with the body
  \<open>const T diff = x[batch_idx + i] - mean; sumsq += diff * diff\<close>.
\<close>

function sumsq_loop :: "'a arith \<Rightarrow> 'a list \<Rightarrow> 'a \<Rightarrow> int \<Rightarrow> int \<Rightarrow> int \<Rightarrow> int \<Rightarrow> 'a \<Rightarrow> fault + 'a" where
  "sumsq_loop A xs m bi hs st i acc =
     (if i < hs then
        (if st \<le> 0 then Inl Diverges else
         (case chk32 (bi + i) of Inl e \<Rightarrow> Inl e | Inr k \<Rightarrow>
          (case rd xs k of Inl e \<Rightarrow> Inl e | Inr v \<Rightarrow>
           (case chk32 (i + st) of Inl e \<Rightarrow> Inl e | Inr i' \<Rightarrow>
              sumsq_loop A xs m bi hs st i'
                (let diff = minus_T A v m in muladd_T A diff diff acc)))))
      else Inr acc)"
  by pat_completeness auto
termination
  by (relation "measure (\<lambda>(A, xs, m, bi, hs, st, i, acc). nat (hs - i))")
     (auto simp: chk32_def split: if_splits)

text \<open>
  Lines 77 and 78:
  \<open>y[batch_idx + i] = (x[batch_idx + i] - mean) * invstd * alpha[i] + beta[i]\<close>.
\<close>

function y_loop :: "'a arith \<Rightarrow> 'a device_mem \<Rightarrow> 'a \<Rightarrow> 'a \<Rightarrow> int \<Rightarrow> int \<Rightarrow> int \<Rightarrow> int \<Rightarrow> fault + 'a device_mem" where
  "y_loop A d m invstd bi hs st i =
     (if i < hs then
        (if st \<le> 0 then Inl Diverges else
         (case chk32 (bi + i) of Inl e \<Rightarrow> Inl e | Inr k \<Rightarrow>
          (case rd (mem_x d) k of Inl e \<Rightarrow> Inl e | Inr v \<Rightarrow>
           (case rd (mem_alpha d) i of Inl e \<Rightarrow> Inl e | Inr a \<Rightarrow>
            (case rd (mem_beta d) i of Inl e \<Rightarrow> Inl e | Inr b \<Rightarrow>
             (case wr (mem_y d) k (muladd_T A (times_T A (minus_T A v m) invstd) a b) of
                Inl e \<Rightarrow> Inl e | Inr ys \<Rightarrow>
              (case chk32 (i + st) of Inl e \<Rightarrow> Inl e | Inr i' \<Rightarrow>
                 y_loop A (d\<lparr>mem_y := ys\<rparr>) m invstd bi hs st i')))))))
      else Inr d)"
  by pat_completeness auto
termination
  by (relation "measure (\<lambda>(A, d, m, invstd, bi, hs, st, i). nat (hs - i))")
     (auto simp: chk32_def split: if_splits)

subsection \<open>The code of one thread between two barriers\<close>

text \<open>Lines 30 to 47: the early return, the strided partial sum, its store to \<open>shared\<close>.\<close>

definition seg_sum :: "'a arith \<Rightarrow> thread_ctx \<Rightarrow> 'a block_state \<Rightarrow> fault + 'a block_state" where
  "seg_sum A c g =
     (if returned c then Inr g else
      seq (batch_idx c) (\<lambda>bi.
      seq (sum_loop A (mem_x (mem g)) bi (hidden_size c) (stride c) (index c) (zero_T A)) (\<lambda>sum.
      seq (chk32 (batch_block_idx c + index c)) (\<lambda>k.
      seq (wr (shared g) k sum) (\<lambda>sh.
      Inr (g\<lparr>shared := sh\<rparr>))))))"

text \<open>
  Lines 51 and 52 (and 70 and 71), one round of the tree reduction:
  \<open>if (index < s) shared[batch_block_idx + index] += shared[batch_block_idx + index + s]\<close>.
\<close>

definition seg_tree :: "'a arith \<Rightarrow> int \<Rightarrow> thread_ctx \<Rightarrow> 'a block_state \<Rightarrow> fault + 'a block_state" where
  "seg_tree A s c g =
     (if returned c then Inr g else
      if index c < s then
        seq (chk32 (batch_block_idx c + index c)) (\<lambda>k.
        seq (chk32 (k + s)) (\<lambda>k'.
        seq (rd (shared g) k) (\<lambda>a.
        seq (rd (shared g) k') (\<lambda>b.
        seq (wr (shared g) k (plus_T A a b)) (\<lambda>sh.
        Inr (g\<lparr>shared := sh\<rparr>))))))
      else Inr g)"

text \<open>Line 57: \<open>const T mean = shared[batch_block_idx] / hidden_size\<close>.\<close>

definition seg_mean :: "'a arith \<Rightarrow> thread_ctx \<Rightarrow> 'a block_state \<Rightarrow> fault + 'a block_state" where
  "seg_mean A c g =
     (if returned c then Inr g else
      seq (rd (shared g) (batch_block_idx c)) (\<lambda>v.
      seq (wr (mean_reg g) (lane c) (divide_T A v (of_int_T A (hidden_size c)))) (\<lambda>rs.
      Inr (g\<lparr>mean_reg := rs\<rparr>))))"

text \<open>Lines 61 to 66: the strided partial sum of squared differences, stored to \<open>shared\<close>.\<close>

definition seg_sumsq :: "'a arith \<Rightarrow> thread_ctx \<Rightarrow> 'a block_state \<Rightarrow> fault + 'a block_state" where
  "seg_sumsq A c g =
     (if returned c then Inr g else
      seq (batch_idx c) (\<lambda>bi.
      seq (rd (mean_reg g) (lane c)) (\<lambda>mean.
      seq (sumsq_loop A (mem_x (mem g)) mean bi (hidden_size c) (stride c) (index c) (zero_T A)) (\<lambda>sumsq.
      seq (chk32 (batch_block_idx c + index c)) (\<lambda>k.
      seq (wr (shared g) k sumsq) (\<lambda>sh.
      Inr (g\<lparr>shared := sh\<rparr>)))))))"

text \<open>
  Lines 75 to 81:
  \<open>invstd = rsqrt(shared[batch_block_idx] / hidden_size + static_cast<T>(1e-5))\<close>, the
  output row and the two cache entries.
\<close>

definition seg_out :: "'a arith \<Rightarrow> thread_ctx \<Rightarrow> 'a block_state \<Rightarrow> fault + 'a block_state" where
  "seg_out A c g =
     (if returned c then Inr g else
      seq (batch_idx c) (\<lambda>bi.
      seq (rd (mean_reg g) (lane c)) (\<lambda>mean.
      seq (rd (shared g) (batch_block_idx c)) (\<lambda>v.
      let invstd = rsqrt_T A (plus_T A (divide_T A v (of_int_T A (hidden_size c))) (eps_T A)) in
      seq (y_loop A (mem g) mean invstd bi (hidden_size c) (stride c) (index c)) (\<lambda>d.
      seq (chk32 (batch c * 2)) (\<lambda>k.
      seq (chk32 (k + 0)) (\<lambda>k0.
      seq (wr (mem_cache d) k0 mean) (\<lambda>c0.
      seq (chk32 (k + 1)) (\<lambda>k1.
      seq (wr c0 k1 invstd) (\<lambda>c1.
      Inr (g\<lparr>mem := d\<lparr>mem_cache := c1\<rparr>\<rparr>)))))))))))"

subsection \<open>A thread block, the grid, the launch\<close>

text \<open>
  Between two \<open>__syncthreads()\<close> every thread of the block runs its segment.  The
  segments of different threads write different locations (but for the two cache
  entries of a row, to which all threads of the row store the same values) and read
  nothing another thread writes in the same segment, so the order chosen here (one
  thread after the other) gives the result of every order.  Thread \<open>k\<close> of a block is
  the one with \<open>threadIdx.x = k div blockDim.y\<close> and \<open>threadIdx.y = k mod blockDim.y\<close>.
\<close>

fun for_each :: "('c \<Rightarrow> 'g \<Rightarrow> fault + 'g) \<Rightarrow> 'c list \<Rightarrow> 'g \<Rightarrow> fault + 'g" where
  "for_each f [] g = Inr g"
| "for_each f (c # cs) g = (case f c g of Inl e \<Rightarrow> Inl e | Inr g' \<Rightarrow> for_each f cs g')"

definition thread_k :: "thread_ctx \<Rightarrow> nat \<Rightarrow> thread_ctx" where
  "thread_k c k = c\<lparr>threadIdx_x := k div blockDim_y c, threadIdx_y := k mod blockDim_y c\<rparr>"

definition block_threads :: "thread_ctx \<Rightarrow> thread_ctx list" where
  "block_threads c = map (thread_k c) [0 ..< blockDim_x c * blockDim_y c]"

text \<open>
  Lines 50 to 54 (and 69 to 73): \<open>for (int s = stride / 2; s > 0; s >>= 1)\<close>, a barrier
  closing each round.  The bound \<open>s\<close> is the same in every thread.
\<close>

function tree_loop :: "'a arith \<Rightarrow> int \<Rightarrow> thread_ctx list \<Rightarrow> 'a block_state \<Rightarrow> fault + 'a block_state" where
  "tree_loop A s cs g =
     (if s > 0 then
        (case for_each (seg_tree A s) cs g of Inl e \<Rightarrow> Inl e | Inr g' \<Rightarrow> tree_loop A (s div 2) cs g')
      else Inr g)"
  by pat_completeness auto
termination
  by (relation "measure (\<lambda>(A, s, cs, g). nat s)") auto

text \<open>Lines 43 to 54: the first reduction, leaving each row's sum in \<open>shared\<close>.\<close>

definition reduce_sum :: "'a arith \<Rightarrow> thread_ctx \<Rightarrow> 'a block_state \<Rightarrow> fault + 'a block_state" where
  "reduce_sum A c g =
     seq (for_each (seg_sum A) (block_threads c) g) (\<lambda>g1.
     tree_loop A (stride c div 2) (block_threads c) g1)"

text \<open>Lines 60 to 73: the second reduction, over the squared differences.\<close>

definition reduce_sumsq :: "'a arith \<Rightarrow> thread_ctx \<Rightarrow> 'a block_state \<Rightarrow> fault + 'a block_state" where
  "reduce_sumsq A c g =
     seq (for_each (seg_sumsq A) (block_threads c) g) (\<lambda>g1.
     tree_loop A (stride c div 2) (block_threads c) g1)"

text \<open>
  The kernel \<open>LayerNorm\<close> as run by one block.  The shared array has
  \<open>blockDim.x * blockDim.y\<close> elements (line 107) and starts with whatever it holds
  (\<open>junk\<close>), as do the \<open>mean\<close> registers.
\<close>

definition LayerNorm_block :: "'a arith \<Rightarrow> (nat \<Rightarrow> 'a) \<Rightarrow> thread_ctx \<Rightarrow> 'a device_mem \<Rightarrow> fault + 'a device_mem" where
  "LayerNorm_block A junk c d =
     (let n = blockDim_x c * blockDim_y c;
          g0 = \<lparr>shared = map junk [0 ..< n], mean_reg = map junk [n ..< n + n], mem = d\<rparr>
      in seq (reduce_sum A c g0) (\<lambda>g1.
         seq (for_each (seg_mean A) (block_threads c) g1) (\<lambda>g2.
         seq (reduce_sumsq A c g2) (\<lambda>g3.
         seq (for_each (seg_out A) (block_threads c) g3) (\<lambda>g4.
         Inr (mem g4))))))"

text \<open>
  The launch \<open>LayerNorm<<<gridDim, blockDim, ...>>>\<close>: every block of the grid.  Blocks
  share global memory only and each writes the rows of its own threads, so they are run
  one after the other.
\<close>

definition LayerNorm :: "'a arith \<Rightarrow> (nat \<Rightarrow> 'a) \<Rightarrow> nat \<Rightarrow> thread_ctx \<Rightarrow> 'a device_mem \<Rightarrow> fault + 'a device_mem" where
  "LayerNorm A junk gridDim_x c d =
     for_each (\<lambda>b. LayerNorm_block A junk (c\<lparr>blockIdx_x := b\<rparr>)) [0 ..< gridDim_x] d"

text \<open>
  Lines 97 to 116, \<open>ForwardPass<T>::Run\<close>: \<open>blockDim(4, 256)\<close> and
  \<open>gridDim.x = (batch_size_ + blockDim.x - 1) / blockDim.x\<close>, in unsigned arithmetic
  (\<open>bsz\<close> and \<open>hsz\<close> are the members \<open>batch_size_\<close> and \<open>hidden_size_\<close>).
\<close>

definition gridDim_x_of :: "int \<Rightarrow> nat \<Rightarrow> nat" where
  "gridDim_x_of bsz bdx = nat (u32 (u32 bsz + int bdx - 1) div int bdx)"

definition Run :: "'a arith \<Rightarrow> (nat \<Rightarrow> 'a) \<Rightarrow> int \<Rightarrow> int \<Rightarrow> 'a device_mem \<Rightarrow> fault + 'a device_mem" where
  "Run A junk bsz hsz d =
     (let bdx = 4; bdy = 256;
          gridDim_x = gridDim_x_of bsz bdx
      in LayerNorm A junk gridDim_x
           \<lparr>batch_size = bsz, hidden_size = hsz,
            blockDim_x = bdx, blockDim_y = bdy,
            blockIdx_x = 0, threadIdx_x = 0, threadIdx_y = 0\<rparr> d)"

section \<open>The GRU inference example\<close>

text \<open>
  Host tensors (\<open>Eigen::Tensor<float, n>\<close>): their dimensions and their elements.
  The example only moves the elements and never computes with them; they are kept as
  the real numbers they denote.
\<close>

record tensor1 =
  dim1_0 :: nat
  data1 :: "real list"

record tensor2 =
  dim2_0 :: nat
  dim2_1 :: nat
  data2 :: "real list"

record tensor3 =
  dim3_0 :: nat
  dim3_1 :: nat
  dim3_2 :: nat
  data3 :: "real list"

text \<open>
  A device address is an allocation and an element offset into it.  The device keeps the
  element count of every allocation (in the order they were made) and its contents; the
  model also records every call of \<open>Iterate\<close> with its arguments.
\<close>

datatype dev_ptr = Null | Ptr nat int

record iterate_args =
  arg_W :: dev_ptr
  arg_R :: dev_ptr
  arg_bx :: dev_ptr
  arg_br :: dev_ptr
  arg_x :: dev_ptr
  arg_h :: dev_ptr
  arg_h_out :: dev_ptr
  arg_v_out :: dev_ptr
  arg_tmp_Wx :: dev_ptr
  arg_tmp_Rh :: dev_ptr
  arg_zoneout_prob :: real
  arg_zoneout_mask :: dev_ptr

record gpu =
  allocated :: "nat list"
  heap :: "real list list"
  calls :: "iterate_args list"

record gru_ptrs =
  W_dev :: dev_ptr
  R_dev :: dev_ptr
  bx_dev :: dev_ptr
  br_dev :: dev_ptr
  x_dev :: dev_ptr
  h_dev :: dev_ptr
  tmp_Wx_dev :: dev_ptr
  tmp_Rh_dev :: dev_ptr

text \<open>
  Modelled from the spec: \<open>device_ptr\<close> (\<open>device_ptr.h\<close> is not part of the sources).
  Section 4.1: construct-from-host-tensor copies the tensor in and records its size.
\<close>

definition device_ptr_copy :: "real list \<Rightarrow> gpu \<Rightarrow> dev_ptr \<times> gpu" where
  "device_ptr_copy elems s =
     (Ptr (length (allocated s)) 0,
      s\<lparr>allocated := allocated s @ [length elems], heap := heap s @ [elems]\<rparr>)"

text \<open>
  Modelled from the spec: \<open>device_ptr\<close>, construct-scratch(elementCount): allocate only,
  undefined contents (\<open>junk\<close>); an allocation failure is fatal.
\<close>

definition device_ptr_scratch :: "(nat \<Rightarrow> real) \<Rightarrow> int \<Rightarrow> gpu \<Rightarrow> fault + dev_ptr \<times> gpu" where
  "device_ptr_scratch junk n s =
     (if n < 0 then Inl AllocFailed
      else Inr (Ptr (length (allocated s)) 0,
                s\<lparr>allocated := allocated s @ [nat n], heap := heap s @ [map junk [0 ..< nat n]]\<rparr>))"

text \<open>Modelled from the spec: \<open>device_ptr::zero()\<close> fills the buffer with binary zero.\<close>

definition zero :: "dev_ptr \<Rightarrow> gpu \<Rightarrow> gpu" where
  "zero p s =
     (case p of Null \<Rightarrow> s
      | Ptr a off \<Rightarrow> s\<lparr>heap := (heap s)[a := replicate (length (heap s ! a)) 0]\<rparr>)"

text \<open>Pointer arithmetic, \<open>p + k\<close>.\<close>

definition ptr_add :: "dev_ptr \<Rightarrow> int \<Rightarrow> dev_ptr" where
  "ptr_add p k = (case p of Null \<Rightarrow> Null | Ptr a off \<Rightarrow> Ptr a (off + k))"

text \<open>
  Lines 97 to 113 of \<open>gru.cc\<close>, the loop over the timesteps.  \<open>ForwardPass::Iterate\<close> is
  not part of the sources: its effect on device memory is the parameter \<open>Iterate\<close>.
\<close>

function timestep_loop ::
  "(iterate_args \<Rightarrow> real list list \<Rightarrow> real list list) \<Rightarrow> gru_ptrs \<Rightarrow>
   int \<Rightarrow> int \<Rightarrow> int \<Rightarrow> int \<Rightarrow> int \<Rightarrow> gpu \<Rightarrow> fault + gpu" where
  "timestep_loop Iterate P time_steps batch_size' input_size hidden_size' t s =
     (if t < time_steps then
        (case chk32 (t * batch_size') of Inl e \<Rightarrow> Inl e | Inr tb \<Rightarrow>
         (case chk32 (tb * input_size) of Inl e \<Rightarrow> Inl e | Inr x_off \<Rightarrow>
          (case chk32 (tb * hidden_size') of Inl e \<Rightarrow> Inl e | Inr tbh \<Rightarrow>
           (case chk32 (tbh * 3) of Inl e \<Rightarrow> Inl e | Inr Wx_off \<Rightarrow>
            (case chk32 (t + 1) of Inl e \<Rightarrow> Inl e | Inr t' \<Rightarrow>
               timestep_loop Iterate P time_steps batch_size' input_size hidden_size' t'
                 (let x_cur_dev = ptr_add (x_dev P) x_off;
                      tmp_Wx_cur = ptr_add (tmp_Wx_dev P) Wx_off;
                      args = \<lparr>arg_W = W_dev P, arg_R = R_dev P, arg_bx = bx_dev P,
                              arg_br = br_dev P, arg_x = x_cur_dev, arg_h = h_dev P,
                              arg_h_out = h_dev P, arg_v_out = Null,
                              arg_tmp_Wx = tmp_Wx_cur, arg_tmp_Rh = tmp_Rh_dev P,
                              arg_zoneout_prob = 0, arg_zoneout_mask = Null\<rparr>
                  in s\<lparr>heap := Iterate args (heap s), calls := calls s @ [args]\<rparr>))))))
      else Inr s)"
  by pat_completeness auto
termination
  by (relation "measure (\<lambda>(Iterate, P, time_steps, b, i, h, t, s). nat (time_steps - t))")
     (auto simp: chk32_def split: if_splits)

text \<open>
  Lines 70 to 114, \<open>GruInference\<close>, up to the end of the loop (the buffers are released
  when the function returns).  The result is the device state and the buffers' addresses.
\<close>

definition GruInference ::
  "(iterate_args \<Rightarrow> real list list \<Rightarrow> real list list) \<Rightarrow> (nat \<Rightarrow> real) \<Rightarrow>
   tensor2 \<Rightarrow> tensor2 \<Rightarrow> tensor1 \<Rightarrow> tensor1 \<Rightarrow> tensor3 \<Rightarrow> fault + gru_ptrs \<times> gpu" where
  "GruInference Iterate junk W R bx br x =
     (let time_steps = s32 (int (dim3_2 x));
          batch_size' = s32 (int (dim3_1 x));
          input_size = s32 (int (dim3_0 x));
          hidden_size' = s32 (int (dim2_1 R));
          s0 = \<lparr>allocated = [], heap = [], calls = []\<rparr>;
          (W_d, s1) = device_ptr_copy (data2 W) s0;
          (R_d, s2) = device_ptr_copy (data2 R) s1;
          (bx_d, s3) = device_ptr_copy (data1 bx) s2;
          (br_d, s4) = device_ptr_copy (data1 br) s3;
          (x_d, s5) = device_ptr_copy (data3 x) s4
      in seq (chk32 (batch_size' * hidden_size')) (\<lambda>bh.
         seq (device_ptr_scratch junk bh s5) (\<lambda>(h_d, s6).
         seq (chk32 (time_steps * batch_size')) (\<lambda>tb.
         seq (chk32 (tb * hidden_size')) (\<lambda>tbh.
         seq (chk32 (tbh * 3)) (\<lambda>tbh3.
         seq (device_ptr_scratch junk tbh3 s6) (\<lambda>(tmp_Wx_d, s7).
         seq (chk32 (bh * 3)) (\<lambda>bh3.
         seq (device_ptr_scratch junk bh3 s7) (\<lambda>(tmp_Rh_d, s8).
         let s9 = zero h_d s8;
             P = \<lparr>W_dev = W_d, R_dev = R_d, bx_dev = bx_d, br_dev = br_d, x_dev = x_d,
                  h_dev = h_d, tmp_Wx_dev = tmp_Wx_d, tmp_Rh_dev = tmp_Rh_d\<rparr>
         in seq (timestep_loop Iterate P time_steps batch_size' input_size hidden_size' 0 s9) (\<lambda>s.
            Inr (P, s)))))))))))"

section \<open>Reference definitions and notions used in the proofs\<close>

text \<open>
  Two families of reference definitions state layer normalization directly on the
  row-major buffer, where row \<open>r\<close> of a buffer with \<open>H\<close> columns occupies the indices
  \<open>r * H + j\<close>.  The \<open>kernel_\<close> definitions give each quantity as an expression in the
  operations of \<open>T\<close>, in the order in which the kernel applies them; the \<open>ref_\<close>
  definitions give it over the real numbers, as the sum, mean and variance of the naive
  definition.  The predicates collect the shapes for which every index computation of
  the kernel stays inside a C++ \<open>int\<close>, and the buffer sizes the kernel expects.
\<close>

text \<open>
  Reference: what one worker accumulates.  Starting from \<open>acc\<close>, the elements of the row
  at \<open>bi\<close> in the columns \<open>i\<close>, \<open>i + st\<close>, \<open>i + 2 * st\<close>, \<dots> below \<open>H\<close> are folded in
  from left to right with \<open>f\<close>.
\<close>

function strided_fold :: "('a \<Rightarrow> 'a \<Rightarrow> 'a) \<Rightarrow> 'a list \<Rightarrow> nat \<Rightarrow> nat \<Rightarrow> nat \<Rightarrow> nat \<Rightarrow> 'a \<Rightarrow> 'a" where
  "strided_fold f xs bi H st i acc =
     (if i < H \<and> 0 < st then strided_fold f xs bi H st (i + st) (f acc (xs ! (bi + i))) else acc)"
  by pat_completeness auto
termination
  by (relation "measure (\<lambda>(f, xs, bi, H, st, i, acc). H - i)") auto

text \<open>
  Reference: one round of the halving tree on the values \<open>v 0\<close>, \<open>v 1\<close>, \<dots> of a
  group's slots.  The round with bound \<open>s\<close> replaces \<open>v t\<close> by \<open>f (v t) (v (t + s))\<close> for
  every \<open>t < s\<close>.
\<close>

definition tree_round :: "('a \<Rightarrow> 'a \<Rightarrow> 'a) \<Rightarrow> nat \<Rightarrow> (nat \<Rightarrow> 'a) \<Rightarrow> nat \<Rightarrow> 'a" where
  "tree_round f s v t = (if t < s then f (v t) (v (t + s)) else v t)"

text \<open>Reference: the rounds with the bounds \<open>s\<close>, \<open>s div 2\<close>, \<dots>, down to 1.\<close>

function tree_rounds :: "('a \<Rightarrow> 'a \<Rightarrow> 'a) \<Rightarrow> nat \<Rightarrow> (nat \<Rightarrow> 'a) \<Rightarrow> nat \<Rightarrow> 'a" where
  "tree_rounds f s v = (if 0 < s then tree_rounds f (s div 2) (tree_round f s v) else v)"
  by pat_completeness auto
termination
  by (relation "measure (\<lambda>(f, s, v). s)") auto

text \<open>
  Reference: the sum of row \<open>r\<close> as a group of \<open>st\<close> workers computes it in \<open>T\<close>: each
  worker's strided partial sum from zero, then the halving tree over the partial sums.
\<close>

definition kernel_sum :: "'a arith \<Rightarrow> 'a list \<Rightarrow> nat \<Rightarrow> nat \<Rightarrow> nat \<Rightarrow> 'a" where
  "kernel_sum A xs H st r =
     tree_rounds (plus_T A) (st div 2)
       (\<lambda>t. strided_fold (plus_T A) xs (r * H) H st t (zero_T A)) 0"

text \<open>Reference: the mean of row \<open>r\<close> as computed in \<open>T\<close>.\<close>

definition kernel_mean :: "'a arith \<Rightarrow> 'a list \<Rightarrow> nat \<Rightarrow> nat \<Rightarrow> nat \<Rightarrow> 'a" where
  "kernel_mean A xs H st r = divide_T A (kernel_sum A xs H st r) (of_int_T A (int H))"

text \<open>
  Reference: the sum of the squared differences of row \<open>r\<close> from \<open>m\<close>, computed in \<open>T\<close> in
  the same order.
\<close>

definition kernel_sumsq :: "'a arith \<Rightarrow> 'a list \<Rightarrow> nat \<Rightarrow> nat \<Rightarrow> nat \<Rightarrow> 'a \<Rightarrow> 'a" where
  "kernel_sumsq A xs H st r m =
     tree_rounds (plus_T A) (st div 2)
       (\<lambda>t. strided_fold (\<lambda>acc v. muladd_T A (minus_T A v m) (minus_T A v m) acc)
              xs (r * H) H st t (zero_T A)) 0"

text \<open>Reference: the inverse standard deviation of row \<open>r\<close> as computed in \<open>T\<close>.\<close>

definition kernel_invstd :: "'a arith \<Rightarrow> 'a list \<Rightarrow> nat \<Rightarrow> nat \<Rightarrow> nat \<Rightarrow> 'a" where
  "kernel_invstd A xs H st r =
     rsqrt_T A (plus_T A
       (divide_T A (kernel_sumsq A xs H st r (kernel_mean A xs H st r)) (of_int_T A (int H)))
       (eps_T A))"

text \<open>
  Reference: the output element at position \<open>q\<close> (row \<open>q div H\<close>, column \<open>q mod H\<close>) as
  computed in \<open>T\<close>.
\<close>

definition kernel_y :: "'a arith \<Rightarrow> 'a list \<Rightarrow> 'a list \<Rightarrow> 'a list \<Rightarrow> nat \<Rightarrow> nat \<Rightarrow> nat \<Rightarrow> 'a" where
  "kernel_y A al be xs H st q =
     muladd_T A
       (times_T A (minus_T A (xs ! q) (kernel_mean A xs H st (q div H)))
                  (kernel_invstd A xs H st (q div H)))
       (al ! (q mod H)) (be ! (q mod H))"

text \<open>Reference: the cache, mean and inverse standard deviation of row \<open>q div 2\<close>.\<close>

definition kernel_cache :: "'a arith \<Rightarrow> 'a list \<Rightarrow> nat \<Rightarrow> nat \<Rightarrow> nat \<Rightarrow> 'a" where
  "kernel_cache A xs H st q =
     (if even q then kernel_mean A xs H st (q div 2) else kernel_invstd A xs H st (q div 2))"

text \<open>
  The shapes (\<open>B\<close> rows of \<open>H\<close> columns) and launch geometries for which every index
  a thread of block \<open>blockIdx_x c\<close> computes stays inside a C++ \<open>int\<close>.
\<close>

definition shape_ok :: "thread_ctx \<Rightarrow> nat \<Rightarrow> nat \<Rightarrow> bool" where
  "shape_ok c B H \<longleftrightarrow>
     batch_size c = int B \<and> hidden_size c = int H \<and>
     0 < blockDim_y c \<and> 0 < H \<and>
     blockDim_x c * blockDim_y c < 2 ^ 31 \<and>
     blockDim_x c * blockIdx_x c + blockDim_x c \<le> 2 ^ 31 \<and>
     B * H < 2 ^ 31 \<and> H + blockDim_y c \<le> 2 ^ 31 \<and> 2 * B \<le> 2 ^ 31"

text \<open>The row that thread \<open>k\<close> of the block works on.\<close>

definition row_of :: "thread_ctx \<Rightarrow> nat \<Rightarrow> nat" where
  "row_of c k = blockDim_x c * blockIdx_x c + k div blockDim_y c"

text \<open>The five buffers have the sizes the kernel expects.\<close>

definition mem_ok :: "'a device_mem \<Rightarrow> nat \<Rightarrow> nat \<Rightarrow> bool" where
  "mem_ok d B H \<longleftrightarrow>
     length (mem_x d) = B * H \<and> length (mem_y d) = B * H \<and>
     length (mem_alpha d) = H \<and> length (mem_beta d) = H \<and> length (mem_cache d) = 2 * B"

text \<open>Row \<open>r\<close> exists and is one of the rows of the block of \<open>c\<close>.\<close>

definition in_block :: "thread_ctx \<Rightarrow> nat \<Rightarrow> nat \<Rightarrow> bool" where
  "in_block c B r \<longleftrightarrow>
     blockDim_x c * blockIdx_x c \<le> r \<and> r < blockDim_x c * blockIdx_x c + blockDim_x c \<and> r < B"

text \<open>Reference: the sum of row \<open>r\<close>.\<close>

definition ref_sum :: "real list \<Rightarrow> nat \<Rightarrow> nat \<Rightarrow> real" where
  "ref_sum xs H r = (\<Sum>j<H. xs ! (r * H + j))"

text \<open>Reference: the arithmetic mean of row \<open>r\<close>.\<close>

definition ref_mean :: "real list \<Rightarrow> nat \<Rightarrow> nat \<Rightarrow> real" where
  "ref_mean xs H r = ref_sum xs H r / real H"

text \<open>Reference: the sum of the squared deviations of row \<open>r\<close> from its mean.\<close>

definition ref_sumsq :: "real list \<Rightarrow> nat \<Rightarrow> nat \<Rightarrow> real" where
  "ref_sumsq xs H r = (\<Sum>j<H. (xs ! (r * H + j) - ref_mean xs H r)\<^sup>2)"

text \<open>Reference: the population variance of row \<open>r\<close>.\<close>

definition ref_variance :: "real list \<Rightarrow> nat \<Rightarrow> nat \<Rightarrow> real" where
  "ref_variance xs H r = ref_sumsq xs H r / real H"

text \<open>Reference: the inverse standard deviation, with \<open>\<epsilon> = 1e-5\<close>.\<close>

definition ref_invstd :: "real list \<Rightarrow> nat \<Rightarrow> nat \<Rightarrow> real" where
  "ref_invstd xs H r = rsqrt (ref_variance xs H r + 1 / 100000)"

text \<open>Reference: the normalized element at position \<open>q\<close> (row \<open>q div H\<close>, column \<open>q mod H\<close>).\<close>

definition ref_y :: "real list \<Rightarrow> real list \<Rightarrow> real list \<Rightarrow> nat \<Rightarrow> nat \<Rightarrow> real" where
  "ref_y al be xs H q =
     (xs ! q - ref_mean xs H (q div H)) * ref_invstd xs H (q div H) * al ! (q mod H) + be ! (q mod H)"

text \<open>Reference: the cache, holding mean and inverse standard deviation of row \<open>q div 2\<close>.\<close>

definition ref_cache :: "real list \<Rightarrow> nat \<Rightarrow> nat \<Rightarrow> real" where
  "ref_cache xs H q = (if even q then ref_mean xs H (q div 2) else ref_invstd xs H (q div 2))"

text \<open>
  The shapes for which every index computed in a launch by \<open>Run\<close> (block size 4 by 256)
  stays inside a C++ \<open>int\<close>, with at least one column.
\<close>

definition launch_pre :: "nat \<Rightarrow> nat \<Rightarrow> bool" where
  "launch_pre B H \<longleftrightarrow> 0 < H \<and> B * H < 2 ^ 31 \<and> H + 256 \<le> 2 ^ 31 \<and> 2 * B \<le> 2 ^ 31"

text \<open>The input and the affine parameters are the same in two memories.\<close>

definition same_inputs :: "'a device_mem \<Rightarrow> 'a device_mem \<Rightarrow> bool" where
  "same_inputs d d' \<longleftrightarrow>
     mem_x d' = mem_x d \<and> mem_alpha d' = mem_alpha d \<and> mem_beta d' = mem_beta d"

text \<open>
  The tensor dimensions for which every product \<open>GruInference\<close> computes stays inside a
  C++ \<open>int\<close>.
\<close>

definition gru_pre :: "tensor3 \<Rightarrow> tensor2 \<Rightarrow> bool" where
  "gru_pre x R \<longleftrightarrow>
     dim3_2 x < 2 ^ 31 \<and> dim3_1 x < 2 ^ 31 \<and> dim3_0 x < 2 ^ 31 \<and> dim2_1 R < 2 ^ 31 \<and>
     dim3_1 x * dim2_1 R * 3 < 2 ^ 31 \<and>
     dim3_2 x * dim3_1 x < 2 ^ 31 \<and>
     dim3_2 x * dim3_1 x * dim3_0 x < 2 ^ 31 \<and>
     dim3_2 x * dim3_1 x * dim2_1 R * 3 < 2 ^ 31"

text \<open>The arguments of the call of \<open>Iterate\<close> at timestep \<open>t\<close>.\<close>

definition call_at :: "gru_ptrs \<Rightarrow> nat \<Rightarrow> nat \<Rightarrow> nat \<Rightarrow> nat \<Rightarrow> iterate_args" where
  "call_at P B I H t =
     \<lparr>arg_W = W_dev P, arg_R = R_dev P, arg_bx = bx_dev P, arg_br = br_dev P,
      arg_x = ptr_add (x_dev P) (int (t * B * I)), arg_h = h_dev P, arg_h_out = h_dev P,
      arg_v_out = Null, arg_tmp_Wx = ptr_add (tmp_Wx_dev P) (int (t * B * H * 3)),
      arg_tmp_Rh = tmp_Rh_dev P, arg_zoneout_prob = 0, arg_zoneout_mask = Null\<rparr>"

text \<open>The addresses \<open>GruInference\<close> obtains: its buffers are the allocations 0 to 7.\<close>

definition gru_ptrs0 :: gru_ptrs where
  "gru_ptrs0 = \<lparr>W_dev = Ptr 0 0, R_dev = Ptr 1 0, bx_dev = Ptr 2 0, br_dev = Ptr 3 0,
                 x_dev = Ptr 4 0, h_dev = Ptr 5 0, tmp_Wx_dev = Ptr 6 0, tmp_Rh_dev = Ptr 7 0\<rparr>"

text \<open>The buffer of rows of width \<open>w\<close> whose row \<open>k\<close> is row \<open>ps ! k\<close> of \<open>buf\<close>.\<close>

definition permute_rows :: "nat list \<Rightarrow> nat \<Rightarrow> 'a list \<Rightarrow> 'a list" where
  "permute_rows ps w buf = concat (map (\<lambda>r. take w (drop (r * w) buf)) ps)"


section \<open>Properties of the layer-normalization kernel\<close>

subsection \<open>Integers in range, accesses in bounds\<close>

lemma s32_id: "- (2 ^ 31) \<le> v \<Longrightarrow> v < 2 ^ 31 \<Longrightarrow> s32 v = v"
  by (simp add: s32_def)

lemma u32_id: "0 \<le> v \<Longrightarrow> v < 2 ^ 32 \<Longrightarrow> u32 v = v"
  by (simp add: u32_def)

lemma chk32_id: "- (2 ^ 31) \<le> v \<Longrightarrow> v < 2 ^ 31 \<Longrightarrow> chk32 v = Inr v"
  by (simp add: chk32_def)

lemma seq_Inr [simp]: "seq (Inr v) f = f v"
  by (simp add: seq_def)

lemma seq_Inl [simp]: "seq (Inl e) f = Inl e"
  by (simp add: seq_def)

lemma rd_nat: "k < length b \<Longrightarrow> rd b (int k) = Inr (b ! k)"
  by (simp add: rd_def)

lemma wr_nat: "k < length b \<Longrightarrow> wr b (int k) v = Inr (b[k := v])"
  by (simp add: wr_def)

lemma for_each_from:
  assumes step: "\<And>k. k < n \<Longrightarrow> f (mk k) (S k) = Inr (S (Suc k))"
  shows "j \<le> n \<Longrightarrow> for_each f (map mk [j ..< n]) (S j) = Inr (S n)"
proof (induction "n - j" arbitrary: j)
  case 0
  then show ?case by simp
next
  case (Suc d)
  then have "j < n" by simp
  then have "[j ..< n] = j # [Suc j ..< n]" by (simp add: upt_conv_Cons)
  moreover have "for_each f (map mk [Suc j ..< n]) (S (Suc j)) = Inr (S n)"
    using Suc by simp
  ultimately show ?case using step [OF \<open>j < n\<close>] by simp
qed

lemma for_each_upt:
  assumes "\<And>k. k < n \<Longrightarrow> f (mk k) (S k) = Inr (S (Suc k))"
  shows "for_each f (map mk [0 ..< n]) (S 0) = Inr (S n)"
  using for_each_from [of n f mk S 0] assms by simp

subsection \<open>The strided loops\<close>

lemma strided_step:
  fixes i st hs :: nat
  assumes "i < hs"
  shows "{j. j < hs \<and> (\<exists>q. j = i + q * st)} = insert i {j. j < hs \<and> (\<exists>q. j = (i + st) + q * st)}"
    (is "?L = insert i ?R")
proof (rule set_eqI)
  fix j
  show "j \<in> ?L \<longleftrightarrow> j \<in> insert i ?R"
  proof
    assume "j \<in> ?L"
    then obtain q where q: "j < hs" "j = i + q * st" by blast
    show "j \<in> insert i ?R"
    proof (cases q)
      case 0
      with q show ?thesis by simp
    next
      case (Suc q')
      with q have "j = (i + st) + q' * st" by simp
      with q(1) show ?thesis by blast
    qed
  next
    assume "j \<in> insert i ?R"
    then consider "j = i" | "j \<in> ?R" by blast
    then show "j \<in> ?L"
    proof cases
      case 1
      then have "j = i + 0 * st" by simp
      with 1 assms show ?thesis by blast
    next
      case 2
      then obtain q where q: "j < hs" "j = (i + st) + q * st" by blast
      then have "j = i + Suc q * st" by simp
      with q(1) show ?thesis by blast
    qed
  qed
qed

lemma strided_mod:
  fixes ty st hs :: nat
  assumes "ty < st"
  shows "{j. j < hs \<and> (\<exists>q. j = ty + q * st)} = {j. j < hs \<and> j mod st = ty}"
proof -
  have "j mod st = ty" if "j = ty + q * st" for j q
    using that assms by simp
  moreover have "\<exists>q. j = ty + q * st" if "j mod st = ty" for j
  proof -
    have "j = j mod st + (j div st) * st" by simp
    with that show ?thesis by metis
  qed
  ultimately show ?thesis by blast
qed

declare sum_loop.simps [simp del] sumsq_loop.simps [simp del] y_loop.simps [simp del] tree_loop.simps [simp del]

declare strided_fold.simps [simp del] tree_rounds.simps [simp del] bitlen.simps [simp del]

lemma strided_fold_stop: "\<not> i < H \<Longrightarrow> strided_fold f xs bi H st i acc = acc"
  by (subst strided_fold.simps) simp

lemma strided_fold_step:
  "i < H \<Longrightarrow> 0 < st \<Longrightarrow>
   strided_fold f xs bi H st i acc = strided_fold f xs bi H st (i + st) (f acc (xs ! (bi + i)))"
  by (subst strided_fold.simps) simp

lemma sum_loop_fold:
  fixes bi hs st i :: nat
  assumes "0 < st" "bi + hs \<le> length xs" "int (length xs) < 2 ^ 31" "int hs + int st \<le> 2 ^ 31"
  shows "sum_loop A xs (int bi) (int hs) (int st) (int i) acc =
         Inr (strided_fold (plus_T A) xs bi hs st i acc)"
proof (induction "hs - i" arbitrary: i acc rule: less_induct)
  case less
  show ?case
  proof (cases "i < hs")
    case False
    have "sum_loop A xs (int bi) (int hs) (int st) (int i) acc = Inr acc"
      using False by (subst sum_loop.simps) simp
    then show ?thesis using False by (simp add: strided_fold_stop)
  next
    case True
    have IH: "sum_loop A xs (int bi) (int hs) (int st) (int (i + st)) (plus_T A acc (xs ! (bi + i))) =
              Inr (strided_fold (plus_T A) xs bi hs st (i + st) (plus_T A acc (xs ! (bi + i))))"
      using less [of "i + st" "plus_T A acc (xs ! (bi + i))"] True assms(1) by simp
    have c1: "chk32 (int bi + int i) = Inr (int (bi + i))"
      using True assms by (simp add: chk32_def)
    have c2: "chk32 (int i + int st) = Inr (int (i + st))"
      using True assms by (simp add: chk32_def)
    have r: "rd xs (int (bi + i)) = Inr (xs ! (bi + i))"
      using True assms by (intro rd_nat) simp
    have "sum_loop A xs (int bi) (int hs) (int st) (int i) acc =
          sum_loop A xs (int bi) (int hs) (int st) (int (i + st)) (plus_T A acc (xs ! (bi + i)))"
      using True assms(1) by (subst sum_loop.simps) (simp add: c1 c2 r del: of_nat_add)
    also note IH
    finally show ?thesis
      using True assms(1) by (simp add: strided_fold_step [of i hs st])
  qed
qed

lemma sumsq_loop_fold:
  fixes bi hs st i :: nat
  assumes "0 < st" "bi + hs \<le> length xs" "int (length xs) < 2 ^ 31" "int hs + int st \<le> 2 ^ 31"
  shows "sumsq_loop A xs m (int bi) (int hs) (int st) (int i) acc =
         Inr (strided_fold (\<lambda>acc v. muladd_T A (minus_T A v m) (minus_T A v m) acc) xs bi hs st i acc)"
proof (induction "hs - i" arbitrary: i acc rule: less_induct)
  case less
  let ?f = "\<lambda>acc v. muladd_T A (minus_T A v m) (minus_T A v m) acc"
  show ?case
  proof (cases "i < hs")
    case False
    have "sumsq_loop A xs m (int bi) (int hs) (int st) (int i) acc = Inr acc"
      using False by (subst sumsq_loop.simps) simp
    then show ?thesis using False by (simp add: strided_fold_stop)
  next
    case True
    have IH: "sumsq_loop A xs m (int bi) (int hs) (int st) (int (i + st)) (?f acc (xs ! (bi + i))) =
              Inr (strided_fold ?f xs bi hs st (i + st) (?f acc (xs ! (bi + i))))"
      using less [of "i + st" "?f acc (xs ! (bi + i))"] True assms(1) by simp
    have c1: "chk32 (int bi + int i) = Inr (int (bi + i))"
      using True assms by (simp add: chk32_def)
    have c2: "chk32 (int i + int st) = Inr (int (i + st))"
      using True assms by (simp add: chk32_def)
    have r: "rd xs (int (bi + i)) = Inr (xs ! (bi + i))"
      using True assms by (intro rd_nat) simp
    have "sumsq_loop A xs m (int bi) (int hs) (int st) (int i) acc =
          sumsq_loop A xs m (int bi) (int hs) (int st) (int (i + st)) (?f acc (xs ! (bi + i)))"
      using True assms(1) by (subst sumsq_loop.simps) (simp add: c1 c2 r Let_def del: of_nat_add)
    also note IH
    finally show ?thesis
      using True assms(1) by (simp add: strided_fold_step [of i hs st])
  qed
qed

subsection \<open>The indices of a thread\<close>

lemma int_small: "(k::nat) < 2 ^ 31 \<Longrightarrow> int k < 2 ^ 31 \<and> - (2 ^ 31) \<le> int k \<and> 0 \<le> int k \<and> int k < 2 ^ 32"
  by simp

lemma thread_k_fields [simp]:
  "batch_size (thread_k c k) = batch_size c"
  "hidden_size (thread_k c k) = hidden_size c"
  "blockDim_x (thread_k c k) = blockDim_x c"
  "blockDim_y (thread_k c k) = blockDim_y c"
  "blockIdx_x (thread_k c k) = blockIdx_x c"
  "threadIdx_x (thread_k c k) = k div blockDim_y c"
  "threadIdx_y (thread_k c k) = k mod blockDim_y c"
  by (simp_all add: thread_k_def)

lemma div_lt_of_lt_mult:
  fixes k a b :: nat
  assumes "k < a * b"
  shows "k div b < a"
  using assms by (simp add: less_mult_imp_div_less)

lemma batch_thread:
  assumes "shape_ok c B H" "k < blockDim_x c * blockDim_y c"
  shows "batch (thread_k c k) = int (row_of c k)"
proof -
  have "k div blockDim_y c < blockDim_x c"
    using assms(2) by (rule div_lt_of_lt_mult)
  then have "blockDim_x c * blockIdx_x c + k div blockDim_y c < 2 ^ 31"
    using assms(1) by (simp add: shape_ok_def)
  from int_small [OF this] show ?thesis
    by (simp add: batch_def row_of_def s32_def u32_def del: of_nat_add of_nat_mult flip: of_nat_mult of_nat_add)
qed

lemma thread_small:
  assumes "shape_ok c B H" "k < blockDim_x c * blockDim_y c"
  shows "k < 2 ^ 31"
  using assms by (simp add: shape_ok_def)

lemma index_thread:
  assumes "shape_ok c B H" "k < blockDim_x c * blockDim_y c"
  shows "index (thread_k c k) = int (k mod blockDim_y c)"
proof -
  have "k mod blockDim_y c \<le> k" by simp
  then have "k mod blockDim_y c < 2 ^ 31"
    using thread_small [OF assms] by (rule order_le_less_trans)
  from int_small [OF this] show ?thesis by (simp add: index_def s32_def)
qed

lemma blockDim_y_small:
  assumes "shape_ok c B H" "k < blockDim_x c * blockDim_y c"
  shows "int (blockDim_y c) < 2 ^ 31"
proof -
  have "0 < blockDim_x c" using assms(2) by (cases "blockDim_x c") simp_all
  then have "blockDim_y c \<le> blockDim_x c * blockDim_y c" by simp
  then have "blockDim_y c < 2 ^ 31" using assms(1) by (simp add: shape_ok_def)
  from int_small [OF this] show ?thesis by simp
qed

lemma stride_thread:
  assumes "shape_ok c B H" "k < blockDim_x c * blockDim_y c"
  shows "stride (thread_k c k) = int (blockDim_y c)"
  using blockDim_y_small [OF assms] by (simp add: stride_def s32_def)

lemma bbi_thread:
  assumes "shape_ok c B H" "k < blockDim_x c * blockDim_y c"
  shows "batch_block_idx (thread_k c k) = int (k div blockDim_y c * blockDim_y c)"
proof -
  have "k div blockDim_y c * blockDim_y c \<le> k" by simp
  then have "k div blockDim_y c * blockDim_y c < 2 ^ 31"
    using thread_small [OF assms] by (rule order_le_less_trans)
  from int_small [OF this] have
    "s32 (u32 (int (k div blockDim_y c * blockDim_y c))) = int (k div blockDim_y c * blockDim_y c)"
    by (simp add: s32_def u32_def del: of_nat_mult)
  moreover have "u32 (int (blockDim_y c)) = int (blockDim_y c)"
    using blockDim_y_small [OF assms] by (simp add: u32_def)
  ultimately show ?thesis
    using stride_thread [OF assms] by (simp add: batch_block_idx_def)
qed

lemma slot_thread:
  assumes "shape_ok c B H" "k < blockDim_x c * blockDim_y c"
  shows "chk32 (int (k div blockDim_y c * blockDim_y c) + int (k mod blockDim_y c)) = Inr (int k)"
proof -
  have "k div blockDim_y c * blockDim_y c + k mod blockDim_y c = k" by simp
  then have "int (k div blockDim_y c * blockDim_y c) + int (k mod blockDim_y c) = int k"
    by (simp only: flip: of_nat_add)
  then show ?thesis
    using int_small [OF thread_small [OF assms]] by (simp add: chk32_def del: of_nat_mult of_nat_add)
qed

lemma lane_thread: "lane (thread_k c k) = int k"
  by (simp add: lane_def)

lemma returned_thread:
  assumes "shape_ok c B H" "k < blockDim_x c * blockDim_y c"
  shows "returned (thread_k c k) \<longleftrightarrow> B \<le> row_of c k"
  using assms(1) by (simp add: returned_def batch_thread [OF assms(1,2)] shape_ok_def)

lemma batch_idx_thread:
  assumes "shape_ok c B H" "k < blockDim_x c * blockDim_y c" "row_of c k < B"
  shows "batch_idx (thread_k c k) = Inr (int (row_of c k * H))"
proof -
  have "row_of c k * H \<le> B * H" using assms(3) by simp
  moreover have "B * H < 2 ^ 31" using assms by (simp add: shape_ok_def)
  ultimately have "row_of c k * H < 2 ^ 31" by linarith
  from int_small [OF this] have "chk32 (int (row_of c k * H)) = Inr (int (row_of c k * H))"
    by (simp add: chk32_def del: of_nat_mult)
  moreover have "hidden_size c = int H" using assms(1) by (simp add: shape_ok_def)
  ultimately show ?thesis
    by (simp add: batch_idx_def batch_thread [OF assms(1,2)])
qed

subsection \<open>The segments, run by every thread of a block\<close>

lemma map_upd_hit:
  assumes "k < n" "P k"
  shows "(map (\<lambda>q. if q < k \<and> P q then v q else w q) [0 ..< n])[k := v k] =
         map (\<lambda>q. if q < Suc k \<and> P q then v q else w q) [0 ..< n]"
  using assms by (intro nth_equalityI) (auto simp: nth_list_update less_Suc_eq)

lemma map_upd_skip:
  assumes "\<not> P k"
  shows "map (\<lambda>q. if q < k \<and> P q then v q else w q) [0 ..< n] =
         map (\<lambda>q. if q < Suc k \<and> P q then v q else w q) [0 ..< n]"
  using assms by (intro nth_equalityI) (auto simp: less_Suc_eq)

lemma map_upd_start:
  "length xs = n \<Longrightarrow> map (\<lambda>q. if q < 0 \<and> P q then v q else xs ! q) [0 ..< n] = xs"
  by (intro nth_equalityI) auto

lemma map_upd_end:
  "map (\<lambda>q. if q < n \<and> P q then v q else w q) [0 ..< n] =
   map (\<lambda>q. if P q then v q else w q) [0 ..< n]"
  by (intro nth_equalityI) auto

lemma block_threads_map:
  "block_threads c = map (thread_k c) [0 ..< blockDim_x c * blockDim_y c]"
  by (simp add: block_threads_def)

lemma seg_sum_thread:
  assumes ok: "shape_ok c B H" and k: "k < blockDim_x c * blockDim_y c"
    and lx: "length (mem_x (mem g)) = B * H"
    and ls: "length (shared g) = blockDim_x c * blockDim_y c"
  shows "seg_sum A (thread_k c k) g =
         Inr (if row_of c k < B
              then g\<lparr>shared := (shared g)[k := strided_fold (plus_T A) (mem_x (mem g)) (row_of c k * H) H (blockDim_y c) (k mod blockDim_y c) (zero_T A)]\<rparr>
              else g)"
proof (cases "row_of c k < B")
  case False
  then show ?thesis by (simp add: seg_sum_def returned_thread [OF ok k])
next
  case True
  let ?st = "blockDim_y c"
  let ?bi = "row_of c k * H"
  have st: "0 < ?st" and H: "hidden_size c = int H" using ok by (simp_all add: shape_ok_def)
  have "Suc (row_of c k) * H \<le> B * H" using True by (intro mult_le_mono1) simp
  then have b1: "?bi + H \<le> length (mem_x (mem g))" using lx by simp
  have b2: "int (length (mem_x (mem g))) < 2 ^ 31"
    using ok lx int_small [of "B * H"] by (simp add: shape_ok_def del: of_nat_mult)
  have b3: "int H + int ?st \<le> 2 ^ 31"
    using ok by (simp add: shape_ok_def flip: of_nat_add)
  have loop: "sum_loop A (mem_x (mem g)) (int ?bi) (int H) (int ?st) (int (k mod ?st)) (zero_T A) =
        Inr (strided_fold (plus_T A) (mem_x (mem g)) ?bi H ?st (k mod ?st) (zero_T A))"
    using st b1 b2 b3 by (rule sum_loop_fold)
  have w: "wr (shared g) (int k) v = Inr ((shared g)[k := v])" for v
    using k ls by (intro wr_nat) simp
  show ?thesis
    using True
    by (simp add: seg_sum_def returned_thread [OF ok k] batch_idx_thread [OF ok k True]
        H stride_thread [OF ok k] index_thread [OF ok k] bbi_thread [OF ok k] loop slot_thread [OF ok k] w
        del: of_nat_mult of_nat_add)
qed

lemma seg_sum_all:
  assumes ok: "shape_ok c B H"
    and lx: "length (mem_x (mem g)) = B * H"
    and ls: "length (shared g) = blockDim_x c * blockDim_y c"
  shows "for_each (seg_sum A) (block_threads c) g =
         Inr (g\<lparr>shared := map (\<lambda>k. if row_of c k < B
                 then strided_fold (plus_T A) (mem_x (mem g)) (row_of c k * H) H (blockDim_y c) (k mod blockDim_y c) (zero_T A)
                 else shared g ! k) [0 ..< blockDim_x c * blockDim_y c]\<rparr>)"
proof -
  let ?n = "blockDim_x c * blockDim_y c"
  let ?P = "\<lambda>k. row_of c k < B"
  let ?v = "\<lambda>k. strided_fold (plus_T A) (mem_x (mem g)) (row_of c k * H) H (blockDim_y c) (k mod blockDim_y c) (zero_T A)"
  let ?S = "\<lambda>j. g\<lparr>shared := map (\<lambda>q. if q < j \<and> ?P q then ?v q else shared g ! q) [0 ..< ?n]\<rparr>"
  have step: "seg_sum A (thread_k c k) (?S k) = Inr (?S (Suc k))" if k: "k < ?n" for k
  proof (cases "?P k")
    case True
    then show ?thesis
      using seg_sum_thread [OF ok k, of "?S k" A] lx k
      by (simp add: map_upd_hit [of k ?n ?P ?v, OF k True] del: upt_Suc)
  next
    case False
    then show ?thesis
      using seg_sum_thread [OF ok k, of "?S k" A] lx
      by (simp add: map_upd_skip [of ?P k ?v, OF False] del: upt_Suc)
  qed
  have "for_each (seg_sum A) (map (thread_k c) [0 ..< ?n]) (?S 0) = Inr (?S ?n)"
    using step by (rule for_each_upt)
  moreover have "map ((!) (shared g)) [0 ..< length (shared g)] = shared g" by (rule map_nth)
  then have "?S 0 = g" by (simp add: ls)
  ultimately show ?thesis
    by (simp only: block_threads_map map_upd_end)
qed

lemma slot_plus_lt:
  fixes k s st bdx :: nat
  assumes "k < bdx * st" "k mod st < s" "2 * s \<le> st"
  shows "k + s < bdx * st"
proof -
  have "0 < st" using assms by (cases st) simp_all
  have "k div st < bdx" using assms(1) by (rule div_lt_of_lt_mult)
  then have "Suc (k div st) * st \<le> bdx * st" by (intro mult_le_mono1) simp
  moreover have "k = k div st * st + k mod st" by simp
  then have "k + s < k div st * st + st" using assms(2,3) by linarith
  ultimately show ?thesis by simp
qed

lemma seg_tree_thread:
  assumes ok: "shape_ok c B H" and k: "k < blockDim_x c * blockDim_y c"
    and ls: "length (shared g) = blockDim_x c * blockDim_y c"
    and s: "2 * s \<le> blockDim_y c"
  shows "seg_tree A (int s) (thread_k c k) g =
         Inr (if row_of c k < B \<and> k mod blockDim_y c < s
              then g\<lparr>shared := (shared g)[k := plus_T A (shared g ! k) (shared g ! (k + s))]\<rparr>
              else g)"
proof (cases "row_of c k < B \<and> k mod blockDim_y c < s")
  case False
  then show ?thesis
    by (auto simp: seg_tree_def returned_thread [OF ok k] index_thread [OF ok k])
next
  case True
  have ks: "k + s < blockDim_x c * blockDim_y c"
    using k True s by (intro slot_plus_lt) simp_all
  have c2: "chk32 (int k + int s) = Inr (int (k + s))"
    using int_small [OF thread_small [OF ok ks]] by (simp add: chk32_def)
  have r1: "rd (shared g) (int k) = Inr (shared g ! k)"
    using k ls by (intro rd_nat) simp
  have r2: "rd (shared g) (int (k + s)) = Inr (shared g ! (k + s))"
    using ks ls by (intro rd_nat) simp
  have w: "wr (shared g) (int k) v = Inr ((shared g)[k := v])" for v
    using k ls by (intro wr_nat) simp
  show ?thesis
    using True
    by (simp add: seg_tree_def returned_thread [OF ok k] index_thread [OF ok k]
        bbi_thread [OF ok k] slot_thread [OF ok k] c2 r1 r2 w del: of_nat_mult of_nat_add)
qed

lemma seg_tree_all:
  assumes ok: "shape_ok c B H"
    and ls: "length (shared g) = blockDim_x c * blockDim_y c"
    and s: "2 * s \<le> blockDim_y c"
  shows "for_each (seg_tree A (int s)) (block_threads c) g =
         Inr (g\<lparr>shared := map (\<lambda>k. if row_of c k < B \<and> k mod blockDim_y c < s
                 then plus_T A (shared g ! k) (shared g ! (k + s))
                 else shared g ! k) [0 ..< blockDim_x c * blockDim_y c]\<rparr>)"
proof -
  let ?n = "blockDim_x c * blockDim_y c"
  let ?P = "\<lambda>k. row_of c k < B \<and> k mod blockDim_y c < s"
  let ?v = "\<lambda>k. plus_T A (shared g ! k) (shared g ! (k + s))"
  let ?S = "\<lambda>j. g\<lparr>shared := map (\<lambda>q. if q < j \<and> ?P q then ?v q else shared g ! q) [0 ..< ?n]\<rparr>"
  have step: "seg_tree A (int s) (thread_k c k) (?S k) = Inr (?S (Suc k))" if k: "k < ?n" for k
  proof (cases "?P k")
    case True
    have ks: "k + s < ?n" using k True s by (intro slot_plus_lt) simp_all
    have "seg_tree A (int s) (thread_k c k) (?S k) =
          Inr ((?S k)\<lparr>shared := (shared (?S k))[k := plus_T A (shared (?S k) ! k) (shared (?S k) ! (k + s))]\<rparr>)"
      using seg_tree_thread [OF ok k _ s, of "?S k" A] True by simp
    moreover have "shared (?S k) ! k = shared g ! k" using k by simp
    moreover have "shared (?S k) ! (k + s) = shared g ! (k + s)" using ks by simp
    ultimately show ?thesis
      by (simp add: map_upd_hit [of k ?n ?P ?v, OF k True] del: upt_Suc)
  next
    case False
    have "seg_tree A (int s) (thread_k c k) (?S k) = Inr (?S k)"
      using seg_tree_thread [OF ok k _ s, of "?S k" A] False by auto
    moreover have "?S k = ?S (Suc k)"
      by (simp only: map_upd_skip [of ?P k ?v, OF False])
    ultimately show ?thesis by simp
  qed
  have "for_each (seg_tree A (int s)) (map (thread_k c) [0 ..< ?n]) (?S 0) = Inr (?S ?n)"
    using step by (rule for_each_upt)
  moreover have "map ((!) (shared g)) [0 ..< length (shared g)] = shared g" by (rule map_nth)
  then have "?S 0 = g" by (simp add: ls)
  ultimately show ?thesis
    by (simp only: block_threads_map map_upd_end)
qed

subsection \<open>The tree reduction\<close>

lemma row_of_slot:
  assumes "0 < blockDim_y c" "t < blockDim_y c"
  shows "row_of c (tx * blockDim_y c + t) = blockDim_x c * blockIdx_x c + tx"
    and "(tx * blockDim_y c + t) mod blockDim_y c = t"
  using assms by (simp_all add: row_of_def)

lemma slot_lt:
  fixes tx t st bdx :: nat
  assumes "tx < bdx" "t < st"
  shows "tx * st + t < bdx * st"
proof -
  have "Suc tx * st \<le> bdx * st" using assms(1) by (intro mult_le_mono1) simp
  then show ?thesis using assms(2) by simp
qed

lemma tree_rounds_0: "tree_rounds f 0 v = v"
  by (subst tree_rounds.simps) simp

lemma tree_rounds_step:
  "0 < s \<Longrightarrow> tree_rounds f s v = tree_rounds f (s div 2) (tree_round f s v)"
  by (subst tree_rounds.simps) simp

text \<open>The tree on a group of \<open>n\<close> slots reads no slot outside the group.\<close>

lemma tree_rounds_cong:
  "(\<And>t. t < n \<Longrightarrow> v t = w t) \<Longrightarrow> 2 * s \<le> n \<Longrightarrow> t < n \<Longrightarrow>
   tree_rounds f s v t = tree_rounds f s w t"
proof (induction s arbitrary: v w rule: less_induct)
  case (less s)
  show ?case
  proof (cases "0 < s")
    case False
    then show ?thesis using less.prems by (simp add: tree_rounds_0)
  next
    case True
    let ?v = "tree_round f s v"
    let ?w = "tree_round f s w"
    have "?v u = ?w u" if "u < n" for u
    proof (cases "u < s")
      case True
      then have "u + s < n" using less.prems(2) by simp
      then show ?thesis using True that less.prems(1) by (simp add: tree_round_def)
    next
      case False
      then show ?thesis using that less.prems(1) by (simp add: tree_round_def)
    qed
    moreover have "s div 2 < s" using True by simp
    moreover have "2 * (s div 2) \<le> n" using less.prems(2) by simp
    ultimately have "tree_rounds f (s div 2) ?v t = tree_rounds f (s div 2) ?w t"
      using less.IH [of "s div 2" ?v ?w] less.prems(3) by blast
    then show ?thesis using True by (simp only: tree_rounds_step [OF True])
  qed
qed

lemma round_slots:
  fixes sh :: "'a list" and A :: "'a arith"
  assumes st: "2 * s \<le> blockDim_y c" and tx: "tx < blockDim_x c"
    and act: "blockDim_x c * blockIdx_x c + tx < B" and t: "t < blockDim_y c"
  defines "sh1 \<equiv> map (\<lambda>k. if row_of c k < B \<and> k mod blockDim_y c < s
                 then plus_T A (sh ! k) (sh ! (k + s)) else sh ! k) [0 ..< blockDim_x c * blockDim_y c]"
  shows "sh1 ! (tx * blockDim_y c + t) =
         (if t < s then plus_T A (sh ! (tx * blockDim_y c + t)) (sh ! (tx * blockDim_y c + (t + s)))
          else sh ! (tx * blockDim_y c + t))"
proof -
  have pos: "0 < blockDim_y c" using t by simp
  have "tx * blockDim_y c + t < blockDim_x c * blockDim_y c"
    using tx t by (rule slot_lt)
  then show ?thesis
    using t act by (simp add: sh1_def row_of_slot [OF pos t] add.assoc del: upt_Suc)
qed

lemma tree_loop_0: "tree_loop A 0 cs g = Inr g"
  by (subst tree_loop.simps) simp

lemma tree_loop_rounds:
  assumes ok: "shape_ok c B H"
  shows "length (shared g) = blockDim_x c * blockDim_y c \<Longrightarrow> 2 * s \<le> blockDim_y c \<Longrightarrow>
         \<exists>g'. tree_loop A (int s) (block_threads c) g = Inr g' \<and>
              mem g' = mem g \<and> mean_reg g' = mean_reg g \<and>
              length (shared g') = blockDim_x c * blockDim_y c \<and>
              (\<forall>tx<blockDim_x c. blockDim_x c * blockIdx_x c + tx < B \<longrightarrow>
                 (\<forall>t<blockDim_y c. shared g' ! (tx * blockDim_y c + t) =
                    tree_rounds (plus_T A) s (\<lambda>t. shared g ! (tx * blockDim_y c + t)) t))"
proof (induction s arbitrary: g rule: less_induct)
  case (less s)
  let ?n = "blockDim_x c * blockDim_y c"
  let ?st = "blockDim_y c"
  show ?case
  proof (cases "0 < s")
    case False
    then show ?thesis using less.prems by (simp add: tree_loop_0 tree_rounds_0)
  next
    case True
    let ?sh1 = "map (\<lambda>k. if row_of c k < B \<and> k mod ?st < s
                   then plus_T A (shared g ! k) (shared g ! (k + s)) else shared g ! k) [0 ..< ?n]"
    let ?g1 = "g\<lparr>shared := ?sh1\<rparr>"
    have round: "for_each (seg_tree A (int s)) (block_threads c) g = Inr ?g1"
      using seg_tree_all [OF ok less.prems(1) less.prems(2)] .
    have half: "int s div 2 = int (s div 2)" by simp
    have pos: "0 < int s" using True by simp
    have unfold: "tree_loop A (int s) (block_threads c) g = tree_loop A (int (s div 2)) (block_threads c) ?g1"
      using round pos by (subst tree_loop.simps) (simp only: half if_True sum.case)
    have "length (shared ?g1) = ?n" by simp
    moreover have "2 * (s div 2) \<le> ?st" using less.prems(2) by simp
    moreover have "s div 2 < s" using True by simp
    ultimately obtain g' where g': "tree_loop A (int (s div 2)) (block_threads c) ?g1 = Inr g'"
        "mem g' = mem ?g1" "mean_reg g' = mean_reg ?g1" "length (shared g') = ?n"
        "\<forall>tx<blockDim_x c. blockDim_x c * blockIdx_x c + tx < B \<longrightarrow>
            (\<forall>t<?st. shared g' ! (tx * ?st + t) =
               tree_rounds (plus_T A) (s div 2) (\<lambda>t. shared ?g1 ! (tx * ?st + t)) t)"
      using less.IH [of "s div 2" ?g1] by blast
    have "shared g' ! (tx * ?st + t) =
          tree_rounds (plus_T A) s (\<lambda>t. shared g ! (tx * ?st + t)) t"
      if tx: "tx < blockDim_x c" "blockDim_x c * blockIdx_x c + tx < B" and t: "t < ?st" for tx t
    proof -
      let ?v = "\<lambda>t. shared g ! (tx * ?st + t)"
      have "shared g' ! (tx * ?st + t) = tree_rounds (plus_T A) (s div 2) (\<lambda>t. ?sh1 ! (tx * ?st + t)) t"
        using g'(5) tx t by simp
      also have "\<dots> = tree_rounds (plus_T A) (s div 2) (tree_round (plus_T A) s ?v) t"
      proof (rule tree_rounds_cong [where n = ?st])
        fix u assume u: "u < ?st"
        show "?sh1 ! (tx * ?st + u) = tree_round (plus_T A) s ?v u"
          using round_slots [OF less.prems(2) tx u, of A "shared g"]
          by (simp add: add.assoc tree_round_def)
      next
        show "2 * (s div 2) \<le> ?st" using less.prems(2) by simp
      next
        show "t < ?st" using t .
      qed
      also have "\<dots> = tree_rounds (plus_T A) s ?v t"
        by (simp only: tree_rounds_step [OF True])
      finally show ?thesis .
    qed
    with g' unfold show ?thesis by simp
  qed
qed

lemma stride_ctx:
  assumes "shape_ok c B H"
  shows "stride c = int (blockDim_y c)"
proof -
  have "blockDim_y c < 2 ^ 31" using assms by (simp add: shape_ok_def)
  from int_small [OF this] show ?thesis by (simp add: stride_def s32_def)
qed

lemma reduce_tree:
  assumes ok: "shape_ok c B H"
    and ls: "length (shared g) = blockDim_x c * blockDim_y c"
  shows "\<exists>g'. tree_loop A (stride c div 2) (block_threads c) g = Inr g' \<and>
              mem g' = mem g \<and> mean_reg g' = mean_reg g \<and>
              length (shared g') = blockDim_x c * blockDim_y c \<and>
              (\<forall>tx<blockDim_x c. blockDim_x c * blockIdx_x c + tx < B \<longrightarrow>
                 shared g' ! (tx * blockDim_y c) =
                 tree_rounds (plus_T A) (blockDim_y c div 2) (\<lambda>t. shared g ! (tx * blockDim_y c + t)) 0)"
proof -
  have pos: "0 < blockDim_y c" using ok by (simp add: shape_ok_def)
  have half: "stride c div 2 = int (blockDim_y c div 2)" by (simp add: stride_ctx [OF ok])
  have "2 * (blockDim_y c div 2) \<le> blockDim_y c" by simp
  from tree_loop_rounds [OF ok ls this, of A] pos show ?thesis
    by (simp only: half) force
qed

lemma reduce_sum_ok:
  assumes ok: "shape_ok c B H"
    and lx: "length (mem_x (mem g)) = B * H"
    and ls: "length (shared g) = blockDim_x c * blockDim_y c"
  shows "\<exists>g'. reduce_sum A c g = Inr g' \<and>
              mem g' = mem g \<and> mean_reg g' = mean_reg g \<and>
              length (shared g') = blockDim_x c * blockDim_y c \<and>
              (\<forall>tx<blockDim_x c. blockDim_x c * blockIdx_x c + tx < B \<longrightarrow>
                 shared g' ! (tx * blockDim_y c) =
                 kernel_sum A (mem_x (mem g)) H (blockDim_y c) (blockDim_x c * blockIdx_x c + tx))"
proof -
  let ?n = "blockDim_x c * blockDim_y c"
  let ?st = "blockDim_y c"
  let ?sh1 = "map (\<lambda>k. if row_of c k < B
                 then strided_fold (plus_T A) (mem_x (mem g)) (row_of c k * H) H ?st (k mod ?st) (zero_T A)
                 else shared g ! k) [0 ..< ?n]"
  let ?g1 = "g\<lparr>shared := ?sh1\<rparr>"
  have pos: "0 < ?st" using ok by (simp add: shape_ok_def)
  have A: "for_each (seg_sum A) (block_threads c) g = Inr ?g1"
    using ok lx ls by (rule seg_sum_all)
  have "length (shared ?g1) = ?n" by simp
  from reduce_tree [OF ok this, of A] obtain g' where g':
    "tree_loop A (stride c div 2) (block_threads c) ?g1 = Inr g'"
    "mem g' = mem ?g1" "mean_reg g' = mean_reg ?g1" "length (shared g') = ?n"
    "\<forall>tx<blockDim_x c. blockDim_x c * blockIdx_x c + tx < B \<longrightarrow>
        shared g' ! (tx * ?st) =
        tree_rounds (plus_T A) (?st div 2) (\<lambda>t. shared ?g1 ! (tx * ?st + t)) 0"
    by blast
  have "shared g' ! (tx * ?st) =
        kernel_sum A (mem_x (mem g)) H ?st (blockDim_x c * blockIdx_x c + tx)"
    if tx: "tx < blockDim_x c" "blockDim_x c * blockIdx_x c + tx < B" for tx
  proof -
    let ?r = "blockDim_x c * blockIdx_x c + tx"
    have "shared g' ! (tx * ?st) =
          tree_rounds (plus_T A) (?st div 2) (\<lambda>t. ?sh1 ! (tx * ?st + t)) 0"
      using g'(5) tx by simp
    also have "\<dots> = tree_rounds (plus_T A) (?st div 2)
                       (\<lambda>t. strided_fold (plus_T A) (mem_x (mem g)) (?r * H) H ?st t (zero_T A)) 0"
    proof (rule tree_rounds_cong [where n = ?st])
      fix t assume t: "t < ?st"
      show "?sh1 ! (tx * ?st + t) =
            strided_fold (plus_T A) (mem_x (mem g)) (?r * H) H ?st t (zero_T A)"
        using slot_lt [OF tx(1) t] tx(2) t
        by (simp add: row_of_slot [OF pos t] del: upt_Suc)
    next
      show "2 * (?st div 2) \<le> ?st" by simp
    next
      show "0 < ?st" using pos .
    qed
    finally show ?thesis by (simp add: kernel_sum_def)
  qed
  then show ?thesis using A g' by (simp add: reduce_sum_def)
qed

subsection \<open>The mean and the second reduction\<close>

lemma seg_mean_thread:
  assumes ok: "shape_ok c B H" and k: "k < blockDim_x c * blockDim_y c"
    and ls: "length (shared g) = blockDim_x c * blockDim_y c"
    and lr: "length (mean_reg g) = blockDim_x c * blockDim_y c"
  shows "seg_mean A (thread_k c k) g =
         Inr (if row_of c k < B
              then g\<lparr>mean_reg := (mean_reg g)[k := divide_T A (shared g ! (k div blockDim_y c * blockDim_y c)) (of_int_T A (int H))]\<rparr>
              else g)"
proof (cases "row_of c k < B")
  case False
  then show ?thesis by (simp add: seg_mean_def returned_thread [OF ok k])
next
  case True
  have H: "hidden_size c = int H" using ok by (simp add: shape_ok_def)
  have "k div blockDim_y c * blockDim_y c \<le> k" by simp
  then have "k div blockDim_y c * blockDim_y c < blockDim_x c * blockDim_y c"
    using k by (rule order_le_less_trans)
  then have "k div blockDim_y c * blockDim_y c < length (shared g)" by (simp only: ls)
  then have r: "rd (shared g) (int (k div blockDim_y c * blockDim_y c)) =
                Inr (shared g ! (k div blockDim_y c * blockDim_y c))"
    by (rule rd_nat)
  have w: "wr (mean_reg g) (int k) v = Inr ((mean_reg g)[k := v])" for v
    using k lr by (intro wr_nat) simp
  show ?thesis
    using True
    by (simp add: seg_mean_def returned_thread [OF ok k] bbi_thread [OF ok k] lane_thread r w H
        del: of_nat_mult of_nat_add)
qed

lemma seg_mean_all:
  assumes ok: "shape_ok c B H"
    and ls: "length (shared g) = blockDim_x c * blockDim_y c"
    and lr: "length (mean_reg g) = blockDim_x c * blockDim_y c"
  shows "for_each (seg_mean A) (block_threads c) g =
         Inr (g\<lparr>mean_reg := map (\<lambda>k. if row_of c k < B
                 then divide_T A (shared g ! (k div blockDim_y c * blockDim_y c)) (of_int_T A (int H))
                 else mean_reg g ! k) [0 ..< blockDim_x c * blockDim_y c]\<rparr>)"
proof -
  let ?n = "blockDim_x c * blockDim_y c"
  let ?P = "\<lambda>k. row_of c k < B"
  let ?v = "\<lambda>k. divide_T A (shared g ! (k div blockDim_y c * blockDim_y c)) (of_int_T A (int H))"
  let ?S = "\<lambda>j. g\<lparr>mean_reg := map (\<lambda>q. if q < j \<and> ?P q then ?v q else mean_reg g ! q) [0 ..< ?n]\<rparr>"
  have step: "seg_mean A (thread_k c k) (?S k) = Inr (?S (Suc k))" if k: "k < ?n" for k
  proof (cases "?P k")
    case True
    have "seg_mean A (thread_k c k) (?S k) = Inr ((?S k)\<lparr>mean_reg := (mean_reg (?S k))[k := ?v k]\<rparr>)"
      using seg_mean_thread [OF ok k, of "?S k" A] True ls by simp
    then show ?thesis
      by (simp add: map_upd_hit [of k ?n ?P ?v, OF k True] del: upt_Suc)
  next
    case False
    have "seg_mean A (thread_k c k) (?S k) = Inr (?S k)"
      using seg_mean_thread [OF ok k, of "?S k" A] False ls by simp
    moreover have "?S k = ?S (Suc k)"
      by (simp only: map_upd_skip [of ?P k ?v, OF False])
    ultimately show ?thesis by simp
  qed
  have "for_each (seg_mean A) (map (thread_k c) [0 ..< ?n]) (?S 0) = Inr (?S ?n)"
    using step by (rule for_each_upt)
  moreover have "map ((!) (mean_reg g)) [0 ..< length (mean_reg g)] = mean_reg g" by (rule map_nth)
  then have "?S 0 = g" by (simp add: lr)
  ultimately show ?thesis
    by (simp only: block_threads_map map_upd_end)
qed

lemma seg_sumsq_thread:
  assumes ok: "shape_ok c B H" and k: "k < blockDim_x c * blockDim_y c"
    and lx: "length (mem_x (mem g)) = B * H"
    and ls: "length (shared g) = blockDim_x c * blockDim_y c"
    and lr: "length (mean_reg g) = blockDim_x c * blockDim_y c"
  shows "seg_sumsq A (thread_k c k) g =
         Inr (if row_of c k < B
              then g\<lparr>shared := (shared g)[k :=
                     strided_fold (\<lambda>acc v. muladd_T A (minus_T A v (mean_reg g ! k)) (minus_T A v (mean_reg g ! k)) acc)
                       (mem_x (mem g)) (row_of c k * H) H (blockDim_y c) (k mod blockDim_y c) (zero_T A)]\<rparr>
              else g)"
proof (cases "row_of c k < B")
  case False
  then show ?thesis by (simp add: seg_sumsq_def returned_thread [OF ok k])
next
  case True
  let ?st = "blockDim_y c"
  let ?bi = "row_of c k * H"
  have st: "0 < ?st" and H: "hidden_size c = int H" using ok by (simp_all add: shape_ok_def)
  have "Suc (row_of c k) * H \<le> B * H" using True by (intro mult_le_mono1) simp
  then have b1: "?bi + H \<le> length (mem_x (mem g))" using lx by simp
  have b2: "int (length (mem_x (mem g))) < 2 ^ 31"
    using ok lx int_small [of "B * H"] by (simp add: shape_ok_def del: of_nat_mult)
  have b3: "int H + int ?st \<le> 2 ^ 31"
    using ok by (simp add: shape_ok_def flip: of_nat_add)
  have loop: "sumsq_loop A (mem_x (mem g)) (mean_reg g ! k) (int ?bi) (int H) (int ?st) (int (k mod ?st)) (zero_T A) =
        Inr (strided_fold (\<lambda>acc v. muladd_T A (minus_T A v (mean_reg g ! k)) (minus_T A v (mean_reg g ! k)) acc)
               (mem_x (mem g)) ?bi H ?st (k mod ?st) (zero_T A))"
    using st b1 b2 b3 by (rule sumsq_loop_fold)
  have r: "rd (mean_reg g) (int k) = Inr (mean_reg g ! k)"
    using k lr by (intro rd_nat) simp
  have w: "wr (shared g) (int k) v = Inr ((shared g)[k := v])" for v
    using k ls by (intro wr_nat) simp
  show ?thesis
    using True
    by (simp add: seg_sumsq_def returned_thread [OF ok k] batch_idx_thread [OF ok k True]
        H stride_thread [OF ok k] index_thread [OF ok k] bbi_thread [OF ok k] lane_thread r
        loop slot_thread [OF ok k] w
        del: of_nat_mult of_nat_add)
qed

lemma seg_sumsq_all:
  assumes ok: "shape_ok c B H"
    and lx: "length (mem_x (mem g)) = B * H"
    and ls: "length (shared g) = blockDim_x c * blockDim_y c"
    and lr: "length (mean_reg g) = blockDim_x c * blockDim_y c"
  shows "for_each (seg_sumsq A) (block_threads c) g =
         Inr (g\<lparr>shared := map (\<lambda>k. if row_of c k < B
                 then strided_fold (\<lambda>acc v. muladd_T A (minus_T A v (mean_reg g ! k)) (minus_T A v (mean_reg g ! k)) acc)
                       (mem_x (mem g)) (row_of c k * H) H (blockDim_y c) (k mod blockDim_y c) (zero_T A)
                 else shared g ! k) [0 ..< blockDim_x c * blockDim_y c]\<rparr>)"
proof -
  let ?n = "blockDim_x c * blockDim_y c"
  let ?P = "\<lambda>k. row_of c k < B"
  let ?v = "\<lambda>k. strided_fold (\<lambda>acc v. muladd_T A (minus_T A v (mean_reg g ! k)) (minus_T A v (mean_reg g ! k)) acc)
                       (mem_x (mem g)) (row_of c k * H) H (blockDim_y c) (k mod blockDim_y c) (zero_T A)"
  let ?S = "\<lambda>j. g\<lparr>shared := map (\<lambda>q. if q < j \<and> ?P q then ?v q else shared g ! q) [0 ..< ?n]\<rparr>"
  have step: "seg_sumsq A (thread_k c k) (?S k) = Inr (?S (Suc k))" if k: "k < ?n" for k
  proof (cases "?P k")
    case True
    have "seg_sumsq A (thread_k c k) (?S k) = Inr ((?S k)\<lparr>shared := (shared (?S k))[k := ?v k]\<rparr>)"
      using seg_sumsq_thread [OF ok k, of "?S k" A] True lx lr by simp
    then show ?thesis
      by (simp add: map_upd_hit [of k ?n ?P ?v, OF k True] del: upt_Suc)
  next
    case False
    have "seg_sumsq A (thread_k c k) (?S k) = Inr (?S k)"
      using seg_sumsq_thread [OF ok k, of "?S k" A] False lx lr by simp
    moreover have "?S k = ?S (Suc k)"
      by (simp only: map_upd_skip [of ?P k ?v, OF False])
    ultimately show ?thesis by simp
  qed
  have "for_each (seg_sumsq A) (map (thread_k c) [0 ..< ?n]) (?S 0) = Inr (?S ?n)"
    using step by (rule for_each_upt)
  moreover have "map ((!) (shared g)) [0 ..< length (shared g)] = shared g" by (rule map_nth)
  then have "?S 0 = g" by (simp add: ls)
  ultimately show ?thesis
    by (simp only: block_threads_map map_upd_end)
qed

lemma reduce_sumsq_ok:
  assumes ok: "shape_ok c B H"
    and lx: "length (mem_x (mem g)) = B * H"
    and ls: "length (shared g) = blockDim_x c * blockDim_y c"
    and lr: "length (mean_reg g) = blockDim_x c * blockDim_y c"
    and mr: "\<forall>k<blockDim_x c * blockDim_y c. row_of c k < B \<longrightarrow> mean_reg g ! k = M (row_of c k)"
  shows "\<exists>g'. reduce_sumsq A c g = Inr g' \<and>
              mem g' = mem g \<and> mean_reg g' = mean_reg g \<and>
              length (shared g') = blockDim_x c * blockDim_y c \<and>
              (\<forall>tx<blockDim_x c. blockDim_x c * blockIdx_x c + tx < B \<longrightarrow>
                 shared g' ! (tx * blockDim_y c) =
                 kernel_sumsq A (mem_x (mem g)) H (blockDim_y c) (blockDim_x c * blockIdx_x c + tx)
                   (M (blockDim_x c * blockIdx_x c + tx)))"
proof -
  let ?n = "blockDim_x c * blockDim_y c"
  let ?st = "blockDim_y c"
  let ?f = "\<lambda>m acc v. muladd_T A (minus_T A v m) (minus_T A v m) acc"
  let ?sh1 = "map (\<lambda>k. if row_of c k < B
                 then strided_fold (?f (mean_reg g ! k)) (mem_x (mem g)) (row_of c k * H) H ?st (k mod ?st) (zero_T A)
                 else shared g ! k) [0 ..< ?n]"
  let ?g1 = "g\<lparr>shared := ?sh1\<rparr>"
  have pos: "0 < ?st" using ok by (simp add: shape_ok_def)
  have A: "for_each (seg_sumsq A) (block_threads c) g = Inr ?g1"
    using ok lx ls lr by (rule seg_sumsq_all)
  have "length (shared ?g1) = ?n" by simp
  from reduce_tree [OF ok this, of A] obtain g' where g':
    "tree_loop A (stride c div 2) (block_threads c) ?g1 = Inr g'"
    "mem g' = mem ?g1" "mean_reg g' = mean_reg ?g1" "length (shared g') = ?n"
    "\<forall>tx<blockDim_x c. blockDim_x c * blockIdx_x c + tx < B \<longrightarrow>
        shared g' ! (tx * ?st) =
        tree_rounds (plus_T A) (?st div 2) (\<lambda>t. shared ?g1 ! (tx * ?st + t)) 0"
    by blast
  have "shared g' ! (tx * ?st) =
        kernel_sumsq A (mem_x (mem g)) H ?st (blockDim_x c * blockIdx_x c + tx)
          (M (blockDim_x c * blockIdx_x c + tx))"
    if tx: "tx < blockDim_x c" "blockDim_x c * blockIdx_x c + tx < B" for tx
  proof -
    let ?r = "blockDim_x c * blockIdx_x c + tx"
    have "shared g' ! (tx * ?st) =
          tree_rounds (plus_T A) (?st div 2) (\<lambda>t. ?sh1 ! (tx * ?st + t)) 0"
      using g'(5) tx by simp
    also have "\<dots> = tree_rounds (plus_T A) (?st div 2)
                       (\<lambda>t. strided_fold (?f (M ?r)) (mem_x (mem g)) (?r * H) H ?st t (zero_T A)) 0"
    proof (rule tree_rounds_cong [where n = ?st])
      fix t assume t: "t < ?st"
      have "mean_reg g ! (tx * ?st + t) = M ?r"
        using mr slot_lt [OF tx(1) t] tx(2) by (simp add: row_of_slot [OF pos t])
      then show "?sh1 ! (tx * ?st + t) =
            strided_fold (?f (M ?r)) (mem_x (mem g)) (?r * H) H ?st t (zero_T A)"
        using slot_lt [OF tx(1) t] tx(2) t
        by (simp add: row_of_slot [OF pos t] del: upt_Suc)
    next
      show "2 * (?st div 2) \<le> ?st" by simp
    next
      show "0 < ?st" using pos .
    qed
    finally show ?thesis by (simp add: kernel_sumsq_def)
  qed
  then show ?thesis using A g' by (simp add: reduce_sumsq_def)
qed

subsection \<open>The output row and the cache\<close>

lemma strided_ex_step:
  fixes i j st :: nat
  shows "(\<exists>p. j = i + p * st) \<longleftrightarrow> j = i \<or> (\<exists>p. j = i + st + p * st)"
proof
  assume "\<exists>p. j = i + p * st"
  then obtain p where p: "j = i + p * st" by blast
  show "j = i \<or> (\<exists>p. j = i + st + p * st)"
  proof (cases p)
    case 0
    with p show ?thesis by simp
  next
    case (Suc p')
    with p have "j = i + st + p' * st" by simp
    then show ?thesis by blast
  qed
next
  assume "j = i \<or> (\<exists>p. j = i + st + p * st)"
  then show "\<exists>p. j = i + p * st"
  proof
    assume "j = i"
    then have "j = i + 0 * st" by simp
    then show ?thesis by blast
  next
    assume "\<exists>p. j = i + st + p * st"
    then obtain p where "j = i + st + p * st" by blast
    then have "j = i + Suc p * st" by simp
    then show ?thesis by blast
  qed
qed

lemma y_upd_step:
  fixes V :: "nat \<Rightarrow> 'a"
  assumes st: "0 < st" and i: "i < H" and n: "bi + H \<le> length ys"
  shows "map (\<lambda>q. if bi \<le> q \<and> q < bi + H \<and> (\<exists>p. q - bi = i + st + p * st) then V q
                   else (ys[bi + i := V (bi + i)]) ! q) [0 ..< length ys] =
         map (\<lambda>q. if bi \<le> q \<and> q < bi + H \<and> (\<exists>p. q - bi = i + p * st) then V q
                   else ys ! q) [0 ..< length ys]"
proof (rule nth_equalityI)
  show "length (map (\<lambda>q. if bi \<le> q \<and> q < bi + H \<and> (\<exists>p. q - bi = i + st + p * st) then V q
                   else (ys[bi + i := V (bi + i)]) ! q) [0 ..< length ys]) =
        length (map (\<lambda>q. if bi \<le> q \<and> q < bi + H \<and> (\<exists>p. q - bi = i + p * st) then V q
                   else ys ! q) [0 ..< length ys])"
    by simp
next
  fix q
  assume "q < length (map (\<lambda>q. if bi \<le> q \<and> q < bi + H \<and> (\<exists>p. q - bi = i + st + p * st) then V q
                   else (ys[bi + i := V (bi + i)]) ! q) [0 ..< length ys])"
  then have q: "q < length ys" by simp
  show "map (\<lambda>q. if bi \<le> q \<and> q < bi + H \<and> (\<exists>p. q - bi = i + st + p * st) then V q
                   else (ys[bi + i := V (bi + i)]) ! q) [0 ..< length ys] ! q =
        map (\<lambda>q. if bi \<le> q \<and> q < bi + H \<and> (\<exists>p. q - bi = i + p * st) then V q
                   else ys ! q) [0 ..< length ys] ! q"
  proof (cases "q = bi + i")
    case True
    have "\<not> (\<exists>p. q - bi = i + st + p * st)" using True st by simp
    moreover have "\<exists>p. q - bi = i + p * st" using True by simp
    ultimately show ?thesis using q True i by simp
  next
    case False
    have "(\<exists>p. q - bi = i + p * st) \<longleftrightarrow> (\<exists>p. q - bi = i + st + p * st)" if "bi \<le> q"
    proof -
      have "q - bi \<noteq> i" using False that by auto
      then show ?thesis using strided_ex_step [of "q - bi" i st] by simp
    qed
    then show ?thesis using q False by auto
  qed
qed

lemma y_loop_strided:
  fixes bi H st :: nat
  assumes st: "0 < st" and small: "int H + int st \<le> 2 ^ 31"
  shows "bi + H \<le> length (mem_x d) \<Longrightarrow> length (mem_y d) = length (mem_x d) \<Longrightarrow>
         length (mem_alpha d) = H \<Longrightarrow> length (mem_beta d) = H \<Longrightarrow>
         int (length (mem_x d)) < 2 ^ 31 \<Longrightarrow>
         y_loop A d m iv (int bi) (int H) (int st) (int i) =
         Inr (d\<lparr>mem_y := map (\<lambda>q. if bi \<le> q \<and> q < bi + H \<and> (\<exists>p. q - bi = i + p * st)
                   then muladd_T A (times_T A (minus_T A (mem_x d ! q) m) iv) (mem_alpha d ! (q - bi)) (mem_beta d ! (q - bi))
                   else mem_y d ! q) [0 ..< length (mem_y d)]\<rparr>)"
proof (induction "H - i" arbitrary: i d rule: less_induct)
  case less
  let ?V = "\<lambda>q. muladd_T A (times_T A (minus_T A (mem_x d ! q) m) iv) (mem_alpha d ! (q - bi)) (mem_beta d ! (q - bi))"
  show ?case
  proof (cases "i < H")
    case False
    have "map (\<lambda>q. if bi \<le> q \<and> q < bi + H \<and> (\<exists>p. q - bi = i + p * st) then ?V q
                   else mem_y d ! q) [0 ..< length (mem_y d)] = map ((!) (mem_y d)) [0 ..< length (mem_y d)]"
      using False by (intro map_cong refl) auto
    then have e: "map (\<lambda>q. if bi \<le> q \<and> q < bi + H \<and> (\<exists>p. q - bi = i + p * st) then ?V q
                   else mem_y d ! q) [0 ..< length (mem_y d)] = mem_y d"
      by (simp only: map_nth)
    have "y_loop A d m iv (int bi) (int H) (int st) (int i) = Inr d"
      using False by (subst y_loop.simps) simp
    then show ?thesis by (simp only: e) simp
  next
    case True
    let ?d' = "d\<lparr>mem_y := (mem_y d)[bi + i := ?V (bi + i)]\<rparr>"
    have c1: "chk32 (int bi + int i) = Inr (int (bi + i))"
      using True less.prems by (simp add: chk32_def)
    have c2: "chk32 (int i + int st) = Inr (int (i + st))"
      using True small by (simp add: chk32_def)
    have r: "rd (mem_x d) (int (bi + i)) = Inr (mem_x d ! (bi + i))"
      using True less.prems by (intro rd_nat) simp
    have ra: "rd (mem_alpha d) (int i) = Inr (mem_alpha d ! i)"
      using True less.prems by (intro rd_nat) simp
    have rb: "rd (mem_beta d) (int i) = Inr (mem_beta d ! i)"
      using True less.prems by (intro rd_nat) simp
    have w: "wr (mem_y d) (int (bi + i)) v = Inr ((mem_y d)[bi + i := v])" for v
      using True less.prems by (intro wr_nat) simp
    have "y_loop A d m iv (int bi) (int H) (int st) (int i) =
          y_loop A ?d' m iv (int bi) (int H) (int st) (int (i + st))"
      using True st by (subst y_loop.simps) (simp add: c1 c2 r ra rb w del: of_nat_add)
    also have "\<dots> = Inr (?d'\<lparr>mem_y := map (\<lambda>q. if bi \<le> q \<and> q < bi + H \<and> (\<exists>p. q - bi = i + st + p * st)
                   then muladd_T A (times_T A (minus_T A (mem_x ?d' ! q) m) iv) (mem_alpha ?d' ! (q - bi)) (mem_beta ?d' ! (q - bi))
                   else mem_y ?d' ! q) [0 ..< length (mem_y ?d')]\<rparr>)"
      using True st less.prems by (intro less.hyps) simp_all
    also have "\<dots> = Inr (d\<lparr>mem_y := map (\<lambda>q. if bi \<le> q \<and> q < bi + H \<and> (\<exists>p. q - bi = i + st + p * st)
                   then ?V q else ((mem_y d)[bi + i := ?V (bi + i)]) ! q) [0 ..< length (mem_y d)]\<rparr>)"
      by (simp cong: if_cong)
    also have "\<dots> = Inr (d\<lparr>mem_y := map (\<lambda>q. if bi \<le> q \<and> q < bi + H \<and> (\<exists>p. q - bi = i + p * st)
                   then ?V q else mem_y d ! q) [0 ..< length (mem_y d)]\<rparr>)"
      using less.prems by (subst y_upd_step [OF st True]) simp_all
    finally show ?thesis .
  qed
qed

lemma row_bounds:
  fixes r q H :: nat
  assumes "0 < H"
  shows "r * H \<le> q \<and> q < r * H + H \<longleftrightarrow> q div H = r"
proof
  assume a: "r * H \<le> q \<and> q < r * H + H"
  then have "q div H \<ge> r" using assms by (simp add: less_eq_div_iff_mult_less_eq)
  moreover have "q < Suc r * H" using a by simp
  then have "q div H < Suc r" using assms by (simp add: div_less_iff_less_mult)
  ultimately show "q div H = r" by simp
next
  assume "q div H = r"
  then have "r * H = q div H * H" by simp
  moreover have "q div H * H \<le> q" by simp
  moreover have "q < q div H * H + H" using assms
    by (metis add.commute div_mult_mod_eq add_less_cancel_left mod_less_divisor)
  ultimately show "r * H \<le> q \<and> q < r * H + H" by simp
qed

lemma row_offset:
  fixes r q H :: nat
  assumes "q div H = r"
  shows "q - r * H = q mod H"
  using assms by (metis add_diff_cancel_left' div_mult_mod_eq)

lemma strided_mod_iff:
  fixes j ty st :: nat
  assumes "ty < st"
  shows "(\<exists>p. j = ty + p * st) \<longleftrightarrow> j mod st = ty"
proof
  assume "\<exists>p. j = ty + p * st"
  then show "j mod st = ty" using assms by auto
next
  assume "j mod st = ty"
  moreover have "j = j mod st + (j div st) * st" by simp
  ultimately show "\<exists>p. j = ty + p * st" by metis
qed

lemma seg_out_thread:
  fixes A :: "'a arith" and g :: "'a block_state"
  assumes ok: "shape_ok c B H" and k: "k < blockDim_x c * blockDim_y c"
    and m: "mem_ok (mem g) B H"
    and ls: "length (shared g) = blockDim_x c * blockDim_y c"
    and lr: "length (mean_reg g) = blockDim_x c * blockDim_y c"
    and act: "row_of c k < B"
  defines "mean \<equiv> mean_reg g ! k"
  defines "invstd \<equiv> rsqrt_T A (plus_T A (divide_T A (shared g ! (k div blockDim_y c * blockDim_y c)) (of_int_T A (int H))) (eps_T A))"
  shows "seg_out A (thread_k c k) g =
         Inr (g\<lparr>mem := (mem g)\<lparr>
               mem_y := map (\<lambda>q. if q div H = row_of c k \<and> (q mod H) mod blockDim_y c = k mod blockDim_y c
                   then muladd_T A (times_T A (minus_T A (mem_x (mem g) ! q) mean) invstd) (mem_alpha (mem g) ! (q mod H)) (mem_beta (mem g) ! (q mod H))
                   else mem_y (mem g) ! q) [0 ..< B * H],
               mem_cache := (mem_cache (mem g))[2 * row_of c k := mean, 2 * row_of c k + 1 := invstd]\<rparr>\<rparr>)"
proof -
  let ?st = "blockDim_y c"
  let ?r = "row_of c k"
  let ?bi = "?r * H"
  let ?d = "mem g"
  have st: "0 < ?st" and H: "hidden_size c = int H" and Hpos: "0 < H"
    using ok by (simp_all add: shape_ok_def)
  have lens: "length (mem_x ?d) = B * H" "length (mem_y ?d) = B * H"
     "length (mem_alpha ?d) = H" "length (mem_beta ?d) = H" "length (mem_cache ?d) = 2 * B"
    using m by (simp_all add: mem_ok_def)
  have "Suc ?r * H \<le> B * H" using act by (intro mult_le_mono1) simp
  then have b1: "?bi + H \<le> length (mem_x ?d)" using lens by simp
  have b2: "int (length (mem_x ?d)) < 2 ^ 31"
    using ok lens int_small [of "B * H"] by (simp add: shape_ok_def del: of_nat_mult)
  have b3: "int H + int ?st \<le> 2 ^ 31"
    using ok by (simp add: shape_ok_def flip: of_nat_add)
  have ty: "k mod ?st < ?st" using st by simp
  have loop: "y_loop A ?d mean invstd (int ?bi) (int H) (int ?st) (int (k mod ?st)) =
        Inr (?d\<lparr>mem_y := map (\<lambda>q. if ?bi \<le> q \<and> q < ?bi + H \<and> (\<exists>p. q - ?bi = k mod ?st + p * ?st)
                   then muladd_T A (times_T A (minus_T A (mem_x ?d ! q) mean) invstd) (mem_alpha ?d ! (q - ?bi)) (mem_beta ?d ! (q - ?bi))
                   else mem_y ?d ! q) [0 ..< length (mem_y ?d)]\<rparr>)"
    using st b3 b1 lens b2 by (intro y_loop_strided) simp_all
  have "map (\<lambda>q. if ?bi \<le> q \<and> q < ?bi + H \<and> (\<exists>p. q - ?bi = k mod ?st + p * ?st)
                   then muladd_T A (times_T A (minus_T A (mem_x ?d ! q) mean) invstd) (mem_alpha ?d ! (q - ?bi)) (mem_beta ?d ! (q - ?bi))
                   else mem_y ?d ! q) [0 ..< length (mem_y ?d)] =
        map (\<lambda>q. if q div H = ?r \<and> (q mod H) mod ?st = k mod ?st
                   then muladd_T A (times_T A (minus_T A (mem_x ?d ! q) mean) invstd) (mem_alpha ?d ! (q mod H)) (mem_beta ?d ! (q mod H))
                   else mem_y ?d ! q) [0 ..< B * H]"
  proof (rule map_cong)
    show "[0 ..< length (mem_y ?d)] = [0 ..< B * H]" using lens by simp
  next
    fix q
    show "(if ?bi \<le> q \<and> q < ?bi + H \<and> (\<exists>p. q - ?bi = k mod ?st + p * ?st)
           then muladd_T A (times_T A (minus_T A (mem_x ?d ! q) mean) invstd) (mem_alpha ?d ! (q - ?bi)) (mem_beta ?d ! (q - ?bi))
           else mem_y ?d ! q) =
          (if q div H = ?r \<and> (q mod H) mod ?st = k mod ?st
           then muladd_T A (times_T A (minus_T A (mem_x ?d ! q) mean) invstd) (mem_alpha ?d ! (q mod H)) (mem_beta ?d ! (q mod H))
           else mem_y ?d ! q)"
    proof (cases "q div H = ?r")
      case True
      then have "?bi \<le> q \<and> q < ?bi + H" using row_bounds [OF Hpos, of ?r q] by simp
      moreover have "q - ?bi = q mod H" using True by (rule row_offset)
      ultimately show ?thesis using True strided_mod_iff [OF ty, of "q mod H"] by simp
    next
      case False
      then have "\<not> (?bi \<le> q \<and> q < ?bi + H)" using row_bounds [OF Hpos, of ?r q] by simp
      then show ?thesis using False by auto
    qed
  qed
  with loop have loop': "y_loop A ?d mean invstd (int ?bi) (int H) (int ?st) (int (k mod ?st)) =
        Inr (?d\<lparr>mem_y := map (\<lambda>q. if q div H = ?r \<and> (q mod H) mod ?st = k mod ?st
                   then muladd_T A (times_T A (minus_T A (mem_x ?d ! q) mean) invstd) (mem_alpha ?d ! (q mod H)) (mem_beta ?d ! (q mod H))
                   else mem_y ?d ! q) [0 ..< B * H]\<rparr>)"
    by simp
  have r1: "rd (mean_reg g) (int k) = Inr mean"
    unfolding mean_def using k lr by (intro rd_nat) simp
  have "k div ?st * ?st \<le> k" by simp
  then have "k div ?st * ?st < blockDim_x c * ?st" using k by (rule order_le_less_trans)
  then have "k div ?st * ?st < length (shared g)" by (simp only: ls)
  then have r2: "rd (shared g) (int (k div ?st * ?st)) = Inr (shared g ! (k div ?st * ?st))"
    by (rule rd_nat)
  have "2 * ?r + 1 < 2 * B" using act by simp
  moreover have "2 * B \<le> 2 ^ 31" using ok by (simp add: shape_ok_def)
  ultimately have cs: "2 * ?r < 2 ^ 31" "2 * ?r + 1 < 2 ^ 31" by simp_all
  have k0: "chk32 (int ?r * 2) = Inr (int (2 * ?r))"
    using int_small [OF cs(1)] by (simp add: chk32_def)
  have k0': "chk32 (int (2 * ?r)) = Inr (int (2 * ?r))"
    using int_small [OF cs(1)] by (simp add: chk32_def)
  have k1: "chk32 (1 + int (2 * ?r)) = Inr (int (Suc (2 * ?r)))"
    using int_small [OF cs(2)] by (simp add: chk32_def)
  have k1': "chk32 (int (2 * ?r) + 1) = Inr (int (Suc (2 * ?r)))"
    using int_small [OF cs(2)] by (simp add: chk32_def)
  have w0: "wr (mem_cache ?d) (int (2 * ?r)) v = Inr ((mem_cache ?d)[2 * ?r := v])" for v
    using act lens by (intro wr_nat) simp
  have w1: "wr ((mem_cache ?d)[2 * ?r := v]) (int (Suc (2 * ?r))) v' =
            Inr ((mem_cache ?d)[2 * ?r := v, Suc (2 * ?r) := v'])" for v v'
    using act lens by (intro wr_nat) simp
  have e: "1 + int (2 * ?r) = int (Suc (2 * ?r))" by simp
  have w1': "wr ((mem_cache ?d)[2 * ?r := v]) (1 + int (2 * ?r)) v' =
            Inr ((mem_cache ?d)[2 * ?r := v, Suc (2 * ?r) := v'])" for v v'
    by (simp only: e w1)
  show ?thesis
    using act
    by (simp add: seg_out_def returned_thread [OF ok k] batch_idx_thread [OF ok k act]
        batch_thread [OF ok k] H stride_thread [OF ok k] index_thread [OF ok k] bbi_thread [OF ok k]
        lane_thread r1 r2 Let_def invstd_def [symmetric] loop' k0 k0' k1 k1' w0 w1 w1'
        del: of_nat_mult of_nat_add)
qed

lemma y_merge:
  assumes "\<And>q. q < n \<Longrightarrow> c q \<Longrightarrow> v q = V q"
  shows "map (\<lambda>q. if c q then v q else (map (\<lambda>q. if P q then V q else w q) [0 ..< n]) ! q) [0 ..< n] =
         map (\<lambda>q. if P q \<or> c q then V q else w q) [0 ..< n]"
  using assms by (intro nth_equalityI) auto

lemma cache_merge:
  assumes "r < B"
  shows "(map (\<lambda>q. if P q then C q else w q) [0 ..< 2 * B])[2 * r := C (2 * r), Suc (2 * r) := C (Suc (2 * r))] =
         map (\<lambda>q. if P q \<or> q div 2 = r then C q else w q) [0 ..< 2 * B]"
proof (rule nth_equalityI)
  show "length ((map (\<lambda>q. if P q then C q else w q) [0 ..< 2 * B])[2 * r := C (2 * r), Suc (2 * r) := C (Suc (2 * r))]) =
        length (map (\<lambda>q. if P q \<or> q div 2 = r then C q else w q) [0 ..< 2 * B])"
    by simp
next
  fix q
  assume "q < length ((map (\<lambda>q. if P q then C q else w q) [0 ..< 2 * B])[2 * r := C (2 * r), Suc (2 * r) := C (Suc (2 * r))])"
  then have q: "q < 2 * B" by simp
  have d: "q div 2 = r \<longleftrightarrow> q = 2 * r \<or> q = Suc (2 * r)" by arith
  show "(map (\<lambda>q. if P q then C q else w q) [0 ..< 2 * B])[2 * r := C (2 * r), Suc (2 * r) := C (Suc (2 * r))] ! q =
        map (\<lambda>q. if P q \<or> q div 2 = r then C q else w q) [0 ..< 2 * B] ! q"
    using q assms by (auto simp: nth_list_update d)
qed

lemma ex_less_Suc: "(\<exists>k<Suc j. A k) \<longleftrightarrow> (\<exists>k<j. A k) \<or> A j"
  by (auto simp: less_Suc_eq)

lemma block_cover:
  assumes st: "0 < blockDim_y c" and t: "t < blockDim_y c"
  shows "(\<exists>k<blockDim_x c * blockDim_y c. row_of c k < B \<and> r = row_of c k \<and> t = k mod blockDim_y c)
         \<longleftrightarrow> in_block c B r"
proof
  assume "\<exists>k<blockDim_x c * blockDim_y c. row_of c k < B \<and> r = row_of c k \<and> t = k mod blockDim_y c"
  then obtain k where k: "k < blockDim_x c * blockDim_y c" "row_of c k < B" "r = row_of c k" by blast
  have "k div blockDim_y c < blockDim_x c" using k(1) by (rule div_lt_of_lt_mult)
  then show "in_block c B r" using k by (simp add: in_block_def row_of_def)
next
  assume a: "in_block c B r"
  let ?tx = "r - blockDim_x c * blockIdx_x c"
  let ?k = "?tx * blockDim_y c + t"
  have tx: "?tx < blockDim_x c" using a by (auto simp: in_block_def)
  have "?k < blockDim_x c * blockDim_y c" using tx t by (rule slot_lt)
  moreover have "row_of c ?k = r" using a by (simp add: row_of_slot [OF st t] in_block_def)
  moreover have "?k mod blockDim_y c = t" using t by simp
  moreover have "r < B" using a by (simp add: in_block_def)
  ultimately show "\<exists>k<blockDim_x c * blockDim_y c. row_of c k < B \<and> r = row_of c k \<and> t = k mod blockDim_y c"
    by metis
qed

lemma block_cover_row:
  assumes st: "0 < blockDim_y c"
  shows "(\<exists>k<blockDim_x c * blockDim_y c. row_of c k < B \<and> r = row_of c k) \<longleftrightarrow> in_block c B r"
proof
  assume "\<exists>k<blockDim_x c * blockDim_y c. row_of c k < B \<and> r = row_of c k"
  then obtain k where k: "k < blockDim_x c * blockDim_y c" "row_of c k < B" "r = row_of c k" by blast
  have "k div blockDim_y c < blockDim_x c" using k(1) by (rule div_lt_of_lt_mult)
  then show "in_block c B r" using k by (simp add: in_block_def row_of_def)
next
  assume "in_block c B r"
  then show "\<exists>k<blockDim_x c * blockDim_y c. row_of c k < B \<and> r = row_of c k"
    using block_cover [OF st st, of B r] by blast
qed

lemma seg_out_all:
  fixes A :: "'a arith" and g :: "'a block_state"
  assumes ok: "shape_ok c B H"
    and m: "mem_ok (mem g) B H"
    and ls: "length (shared g) = blockDim_x c * blockDim_y c"
    and lr: "length (mean_reg g) = blockDim_x c * blockDim_y c"
    and mr: "\<forall>k<blockDim_x c * blockDim_y c. row_of c k < B \<longrightarrow> mean_reg g ! k = M (row_of c k)"
    and sq: "\<forall>k<blockDim_x c * blockDim_y c. row_of c k < B \<longrightarrow>
               shared g ! (k div blockDim_y c * blockDim_y c) = Q (row_of c k)"
  defines "V \<equiv> \<lambda>q. muladd_T A (times_T A (minus_T A (mem_x (mem g) ! q) (M (q div H)))
                       (rsqrt_T A (plus_T A (divide_T A (Q (q div H)) (of_int_T A (int H))) (eps_T A))))
                     (mem_alpha (mem g) ! (q mod H)) (mem_beta (mem g) ! (q mod H))"
  defines "C \<equiv> \<lambda>q. if even q then M (q div 2)
                     else rsqrt_T A (plus_T A (divide_T A (Q (q div 2)) (of_int_T A (int H))) (eps_T A))"
  shows "for_each (seg_out A) (block_threads c) g =
         Inr (g\<lparr>mem := (mem g)\<lparr>
               mem_y := map (\<lambda>q. if in_block c B (q div H) then V q else mem_y (mem g) ! q) [0 ..< B * H],
               mem_cache := map (\<lambda>q. if in_block c B (q div 2) then C q else mem_cache (mem g) ! q) [0 ..< 2 * B]\<rparr>\<rparr>)"
proof -
  let ?n = "blockDim_x c * blockDim_y c"
  let ?st = "blockDim_y c"
  let ?A = "\<lambda>k q. row_of c k < B \<and> q div H = row_of c k \<and> (q mod H) mod ?st = k mod ?st"
  let ?Ac = "\<lambda>k q. row_of c k < B \<and> q div 2 = row_of c k"
  let ?Fy = "\<lambda>j q. if (\<exists>k<j. ?A k q) then V q else mem_y (mem g) ! q"
  let ?Fc = "\<lambda>j q. if (\<exists>k<j. ?Ac k q) then C q else mem_cache (mem g) ! q"
  let ?S = "\<lambda>j. g\<lparr>mem := (mem g)\<lparr>mem_y := map (?Fy j) [0 ..< B * H],
                                    mem_cache := map (?Fc j) [0 ..< 2 * B]\<rparr>\<rparr>"
  have st: "0 < ?st" using ok by (simp add: shape_ok_def)
  have lens: "length (mem_x (mem g)) = B * H" "length (mem_y (mem g)) = B * H"
     "length (mem_alpha (mem g)) = H" "length (mem_beta (mem g)) = H" "length (mem_cache (mem g)) = 2 * B"
    using m by (simp_all add: mem_ok_def)
  have mS: "mem_ok (mem (?S j)) B H" for j using lens by (simp add: mem_ok_def)
  have step: "seg_out A (thread_k c k) (?S k) = Inr (?S (Suc k))" if k: "k < ?n" for k
  proof (cases "row_of c k < B")
    case False
    have "seg_out A (thread_k c k) (?S k) = Inr (?S k)"
      using False by (simp add: seg_out_def returned_thread [OF ok k])
    moreover have "(\<exists>k'<Suc k. ?A k' q) \<longleftrightarrow> (\<exists>k'<k. ?A k' q)" for q
      using False by (auto simp: less_Suc_eq)
    moreover have "(\<exists>k'<Suc k. ?Ac k' q) \<longleftrightarrow> (\<exists>k'<k. ?Ac k' q)" for q
      using False by (auto simp: less_Suc_eq)
    ultimately show ?thesis by simp
  next
    case True
    let ?r = "row_of c k"
    let ?iv = "rsqrt_T A (plus_T A (divide_T A (Q ?r) (of_int_T A (int H))) (eps_T A))"
    let ?c = "\<lambda>q. q div H = ?r \<and> (q mod H) mod ?st = k mod ?st"
    let ?v = "\<lambda>q. muladd_T A (times_T A (minus_T A (mem_x (mem g) ! q) (M ?r)) ?iv) (mem_alpha (mem g) ! (q mod H)) (mem_beta (mem g) ! (q mod H))"
    have mk: "mean_reg g ! k = M ?r" using mr k True by simp
    have sk: "shared g ! (k div ?st * ?st) = Q ?r" using sq k True by simp
    have "seg_out A (thread_k c k) (?S k) =
          Inr (g\<lparr>mem := (mem g)\<lparr>
                 mem_y := map (\<lambda>q. if ?c q then ?v q else (map (?Fy k) [0 ..< B * H]) ! q) [0 ..< B * H],
                 mem_cache := (map (?Fc k) [0 ..< 2 * B])[2 * ?r := M ?r, Suc (2 * ?r) := ?iv]\<rparr>\<rparr>)"
      using seg_out_thread [OF ok k mS [of k] _ _ True, of A] ls lr mk sk
      by (simp cong: if_cong del: upt_Suc)
    also have "map (\<lambda>q. if ?c q then ?v q else (map (?Fy k) [0 ..< B * H]) ! q) [0 ..< B * H] =
               map (\<lambda>q. if (\<exists>k'<k. ?A k' q) \<or> ?c q then V q else mem_y (mem g) ! q) [0 ..< B * H]"
      by (rule y_merge) (simp add: V_def)
    also have "(\<lambda>q. if (\<exists>k'<k. ?A k' q) \<or> ?c q then V q else mem_y (mem g) ! q) = ?Fy (Suc k)"
      using True by (simp add: ex_less_Suc)
    also have "(map (?Fc k) [0 ..< 2 * B])[2 * ?r := M ?r, Suc (2 * ?r) := ?iv] =
               (map (?Fc k) [0 ..< 2 * B])[2 * ?r := C (2 * ?r), Suc (2 * ?r) := C (Suc (2 * ?r))]"
      by (simp add: C_def)
    also have "\<dots> = map (\<lambda>q. if (\<exists>k'<k. ?Ac k' q) \<or> q div 2 = ?r then C q else mem_cache (mem g) ! q) [0 ..< 2 * B]"
      using True by (rule cache_merge)
    also have "(\<lambda>q. if (\<exists>k'<k. ?Ac k' q) \<or> q div 2 = ?r then C q else mem_cache (mem g) ! q) = ?Fc (Suc k)"
      using True by (simp add: ex_less_Suc)
    finally show ?thesis .
  qed
  have run: "for_each (seg_out A) (map (thread_k c) [0 ..< ?n]) (?S 0) = Inr (?S ?n)"
    using step by (rule for_each_upt)
  have "map ((!) (mem_y (mem g))) [0 ..< length (mem_y (mem g))] = mem_y (mem g)"
       "map ((!) (mem_cache (mem g))) [0 ..< length (mem_cache (mem g))] = mem_cache (mem g)"
    by (rule map_nth)+
  then have S0: "?S 0 = g" by (simp add: lens)
  have "(\<exists>k<?n. ?A k q) \<longleftrightarrow> in_block c B (q div H)" for q
  proof -
    have "(q mod H) mod ?st < ?st" using st by simp
    from block_cover [OF st this, of B "q div H"] show ?thesis by auto
  qed
  moreover have "(\<exists>k<?n. ?Ac k q) \<longleftrightarrow> in_block c B (q div 2)" for q
    using block_cover_row [OF st, of B "q div 2"] by auto
  ultimately have Sn: "?S ?n = g\<lparr>mem := (mem g)\<lparr>
               mem_y := map (\<lambda>q. if in_block c B (q div H) then V q else mem_y (mem g) ! q) [0 ..< B * H],
               mem_cache := map (\<lambda>q. if in_block c B (q div 2) then C q else mem_cache (mem g) ! q) [0 ..< 2 * B]\<rparr>\<rparr>"
    by simp
  show ?thesis using run by (simp only: block_threads_map S0 Sn)
qed

subsection \<open>One block, the grid, the launch\<close>

lemma LayerNorm_block_ok:
  assumes ok: "shape_ok c B H" and m: "mem_ok d B H"
  shows "LayerNorm_block A junk c d =
         Inr (d\<lparr>mem_y := map (\<lambda>q. if in_block c B (q div H)
                     then kernel_y A (mem_alpha d) (mem_beta d) (mem_x d) H (blockDim_y c) q
                     else mem_y d ! q) [0 ..< B * H],
                 mem_cache := map (\<lambda>q. if in_block c B (q div 2)
                     then kernel_cache A (mem_x d) H (blockDim_y c) q
                     else mem_cache d ! q) [0 ..< 2 * B]\<rparr>)"
proof -
  let ?n = "blockDim_x c * blockDim_y c"
  let ?st = "blockDim_y c"
  let ?g0 = "\<lparr>shared = map junk [0 ..< ?n], mean_reg = map junk [?n ..< ?n + ?n], mem = d\<rparr>"
  let ?ksum = "kernel_sum A (mem_x d) H ?st"
  let ?kmean = "kernel_mean A (mem_x d) H ?st"
  let ?ksq = "\<lambda>r. kernel_sumsq A (mem_x d) H ?st r (?kmean r)"
  have lx: "length (mem_x d) = B * H" using m by (simp add: mem_ok_def)
  have st: "0 < ?st" using ok by (simp add: shape_ok_def)
  have row: "row_of c k = blockDim_x c * blockIdx_x c + k div ?st" for k by (simp add: row_of_def)
  from reduce_sum_ok [OF ok, of ?g0 A] lx obtain g1 where g1:
    "reduce_sum A c ?g0 = Inr g1" "mem g1 = d" "length (mean_reg g1) = ?n" "length (shared g1) = ?n"
    "\<forall>tx<blockDim_x c. blockDim_x c * blockIdx_x c + tx < B \<longrightarrow>
        shared g1 ! (tx * ?st) = ?ksum (blockDim_x c * blockIdx_x c + tx)"
    by auto
  let ?g2 = "g1\<lparr>mean_reg := map (\<lambda>k. if row_of c k < B
                 then divide_T A (shared g1 ! (k div ?st * ?st)) (of_int_T A (int H))
                 else mean_reg g1 ! k) [0 ..< ?n]\<rparr>"
  have g2: "for_each (seg_mean A) (block_threads c) g1 = Inr ?g2"
    using ok g1(4) g1(3) by (rule seg_mean_all)
  have mr: "\<forall>k<?n. row_of c k < B \<longrightarrow> mean_reg ?g2 ! k = ?kmean (row_of c k)"
  proof (intro allI impI)
    fix k assume k: "k < ?n" "row_of c k < B"
    have "k div ?st < blockDim_x c" using k(1) by (rule div_lt_of_lt_mult)
    then have "shared g1 ! (k div ?st * ?st) = ?ksum (row_of c k)"
      using g1(5) k(2) by (simp add: row)
    then show "mean_reg ?g2 ! k = ?kmean (row_of c k)"
      using k by (simp add: kernel_mean_def del: upt_Suc)
  qed
  have "length (mem_x (mem ?g2)) = B * H" "length (shared ?g2) = ?n" "length (mean_reg ?g2) = ?n"
    using lx g1 by simp_all
  from reduce_sumsq_ok [OF ok this mr, of A] obtain g3 where g3:
    "reduce_sumsq A c ?g2 = Inr g3" "mem g3 = d" "mean_reg g3 = mean_reg ?g2" "length (shared g3) = ?n"
    "\<forall>tx<blockDim_x c. blockDim_x c * blockIdx_x c + tx < B \<longrightarrow>
        shared g3 ! (tx * ?st) = ?ksq (blockDim_x c * blockIdx_x c + tx)"
    using g1(2) by auto
  have mr3: "\<forall>k<?n. row_of c k < B \<longrightarrow> mean_reg g3 ! k = ?kmean (row_of c k)"
    using mr g3(3) by simp
  have sq3: "\<forall>k<?n. row_of c k < B \<longrightarrow> shared g3 ! (k div ?st * ?st) = ?ksq (row_of c k)"
  proof (intro allI impI)
    fix k assume k: "k < ?n" "row_of c k < B"
    have "k div ?st < blockDim_x c" using k(1) by (rule div_lt_of_lt_mult)
    then show "shared g3 ! (k div ?st * ?st) = ?ksq (row_of c k)"
      using g3(5) k(2) by (simp add: row)
  qed
  have m3: "mem_ok (mem g3) B H" using m g3(2) by simp
  have l3: "length (mean_reg g3) = ?n" using g3(3) by simp
  have out: "for_each (seg_out A) (block_threads c) g3 =
        Inr (g3\<lparr>mem := (mem g3)\<lparr>
               mem_y := map (\<lambda>q. if in_block c B (q div H)
                   then muladd_T A (times_T A (minus_T A (mem_x (mem g3) ! q) (?kmean (q div H)))
                          (rsqrt_T A (plus_T A (divide_T A (?ksq (q div H)) (of_int_T A (int H))) (eps_T A))))
                        (mem_alpha (mem g3) ! (q mod H)) (mem_beta (mem g3) ! (q mod H))
                   else mem_y (mem g3) ! q) [0 ..< B * H],
               mem_cache := map (\<lambda>q. if in_block c B (q div 2)
                   then (if even q then ?kmean (q div 2)
                         else rsqrt_T A (plus_T A (divide_T A (?ksq (q div 2)) (of_int_T A (int H))) (eps_T A)))
                   else mem_cache (mem g3) ! q) [0 ..< 2 * B]\<rparr>\<rparr>)"
    using ok m3 g3(4) l3 mr3 sq3 by (rule seg_out_all)
  show ?thesis
    using g1(1) g2 g3(1) out g3(2)
    by (simp add: LayerNorm_block_def Let_def kernel_y_def kernel_cache_def kernel_invstd_def
        cong: if_cong del: upt_Suc)
qed

lemma in_block_blockIdx:
  "in_block (c\<lparr>blockIdx_x := b\<rparr>) B r \<longleftrightarrow>
     blockDim_x c * b \<le> r \<and> r < blockDim_x c * Suc b \<and> r < B"
  by (auto simp: in_block_def)

lemma grid_merge:
  fixes bdx b H n :: nat
  assumes "\<And>q. q < n \<Longrightarrow> R q < B"
  shows "map (\<lambda>q. if bdx * b \<le> R q \<and> R q < bdx * Suc b \<and> R q < B then V q
                   else (map (\<lambda>q. if R q < bdx * b then V q else w q) [0 ..< n]) ! q) [0 ..< n] =
         map (\<lambda>q. if R q < bdx * Suc b then V q else w q) [0 ..< n]"
  using assms by (intro nth_equalityI) auto

lemma div_lt_rows:
  fixes q B H :: nat
  assumes "q < B * H"
  shows "q div H < B"
  using assms by (simp add: less_mult_imp_div_less)

lemma LayerNorm_grid_ok:
  assumes ok: "\<And>b. b < G \<Longrightarrow> shape_ok (c\<lparr>blockIdx_x := b\<rparr>) B H"
    and m: "mem_ok d B H"
  shows "LayerNorm A junk G c d =
         Inr (d\<lparr>mem_y := map (\<lambda>q. if q div H < blockDim_x c * G
                     then kernel_y A (mem_alpha d) (mem_beta d) (mem_x d) H (blockDim_y c) q else mem_y d ! q) [0 ..< B * H],
                 mem_cache := map (\<lambda>q. if q div 2 < blockDim_x c * G
                     then kernel_cache A (mem_x d) H (blockDim_y c) q else mem_cache d ! q) [0 ..< 2 * B]\<rparr>)"
proof -
  let ?V = "kernel_y A (mem_alpha d) (mem_beta d) (mem_x d) H (blockDim_y c)"
  let ?C = "kernel_cache A (mem_x d) H (blockDim_y c)"
  let ?S = "\<lambda>b. d\<lparr>mem_y := map (\<lambda>q. if q div H < blockDim_x c * b then ?V q else mem_y d ! q) [0 ..< B * H],
                    mem_cache := map (\<lambda>q. if q div 2 < blockDim_x c * b then ?C q else mem_cache d ! q) [0 ..< 2 * B]\<rparr>"
  have lens: "length (mem_y d) = B * H" "length (mem_cache d) = 2 * B"
    using m by (simp_all add: mem_ok_def)
  have mS: "mem_ok (?S b) B H" for b using m by (simp add: mem_ok_def)
  have step: "LayerNorm_block A junk (c\<lparr>blockIdx_x := b\<rparr>) (?S b) = Inr (?S (Suc b))" if b: "b < G" for b
  proof -
    have "LayerNorm_block A junk (c\<lparr>blockIdx_x := b\<rparr>) (?S b) =
          Inr (d\<lparr>mem_y := map (\<lambda>q. if blockDim_x c * b \<le> q div H \<and> q div H < blockDim_x c * Suc b \<and> q div H < B
                     then ?V q
                     else (map (\<lambda>q. if q div H < blockDim_x c * b then ?V q else mem_y d ! q) [0 ..< B * H]) ! q)
                     [0 ..< B * H],
                 mem_cache := map (\<lambda>q. if blockDim_x c * b \<le> q div 2 \<and> q div 2 < blockDim_x c * Suc b \<and> q div 2 < B
                     then ?C q
                     else (map (\<lambda>q. if q div 2 < blockDim_x c * b then ?C q else mem_cache d ! q) [0 ..< 2 * B]) ! q)
                     [0 ..< 2 * B]\<rparr>)"
      using LayerNorm_block_ok [OF ok [OF b] mS [of b], of A junk]
      by (simp add: in_block_blockIdx cong: if_cong del: upt_Suc mult_Suc_right)
    also have "map (\<lambda>q. if blockDim_x c * b \<le> q div H \<and> q div H < blockDim_x c * Suc b \<and> q div H < B
                     then ?V q
                     else (map (\<lambda>q. if q div H < blockDim_x c * b then ?V q else mem_y d ! q) [0 ..< B * H]) ! q)
                     [0 ..< B * H] =
               map (\<lambda>q. if q div H < blockDim_x c * Suc b then ?V q else mem_y d ! q) [0 ..< B * H]"
      by (rule grid_merge) (rule div_lt_rows)
    also have "map (\<lambda>q. if blockDim_x c * b \<le> q div 2 \<and> q div 2 < blockDim_x c * Suc b \<and> q div 2 < B
                     then ?C q
                     else (map (\<lambda>q. if q div 2 < blockDim_x c * b then ?C q else mem_cache d ! q) [0 ..< 2 * B]) ! q)
                     [0 ..< 2 * B] =
               map (\<lambda>q. if q div 2 < blockDim_x c * Suc b then ?C q else mem_cache d ! q) [0 ..< 2 * B]"
      by (rule grid_merge) simp
    finally show ?thesis .
  qed
  have run: "for_each (\<lambda>b. LayerNorm_block A junk (c\<lparr>blockIdx_x := b\<rparr>)) (map (\<lambda>b. b) [0 ..< G]) (?S 0) = Inr (?S G)"
    using step by (rule for_each_upt)
  have "map ((!) (mem_y d)) [0 ..< length (mem_y d)] = mem_y d"
       "map ((!) (mem_cache d)) [0 ..< length (mem_cache d)] = mem_cache d"
    by (rule map_nth)+
  then have S0: "?S 0 = d" by (simp add: lens)
  from run [unfolded S0] show ?thesis by (simp add: LayerNorm_def del: upt_Suc)
qed

lemma gridDim_x_of_4:
  assumes "2 * B \<le> 2 ^ 31"
  shows "gridDim_x_of (int B) 4 = (B + 3) div 4"
proof -
  have "int B + 3 < 2 ^ 32" using assms by simp
  then show ?thesis
    by (simp add: gridDim_x_of_def u32_def nat_div_distrib nat_add_distrib)
qed

lemma Run_ok:
  assumes H: "0 < H" and s1: "B * H < 2 ^ 31" and s2: "H + 256 \<le> 2 ^ 31" and s3: "2 * B \<le> 2 ^ 31"
    and m: "mem_ok d B H"
  shows "Run A junk (int B) (int H) d =
         Inr (d\<lparr>mem_y := map (kernel_y A (mem_alpha d) (mem_beta d) (mem_x d) H 256) [0 ..< B * H],
                 mem_cache := map (kernel_cache A (mem_x d) H 256) [0 ..< 2 * B]\<rparr>)"
proof -
  let ?G = "(B + 3) div 4"
  let ?c = "\<lparr>batch_size = int B, hidden_size = int H, blockDim_x = 4, blockDim_y = 256,
             blockIdx_x = 0, threadIdx_x = 0, threadIdx_y = 0\<rparr>"
  have G: "gridDim_x_of (int B) 4 = ?G" using s3 by (rule gridDim_x_of_4)
  have cover: "B \<le> 4 * ?G" by simp
  have ok: "shape_ok (?c\<lparr>blockIdx_x := b\<rparr>) B H" if "b < ?G" for b
  proof -
    have "4 * b + 4 \<le> 4 * ?G" using that by simp
    also have "\<dots> \<le> B + 3" by simp
    finally have "4 * b + 4 \<le> 2 ^ 31" using s3 by simp
    then show ?thesis using H s1 s2 s3 by (simp add: shape_ok_def)
  qed
  have "LayerNorm A junk ?G ?c d =
         Inr (d\<lparr>mem_y := map (\<lambda>q. if q div H < blockDim_x ?c * ?G
                     then kernel_y A (mem_alpha d) (mem_beta d) (mem_x d) H 256 q else mem_y d ! q) [0 ..< B * H],
                 mem_cache := map (\<lambda>q. if q div 2 < blockDim_x ?c * ?G
                     then kernel_cache A (mem_x d) H 256 q else mem_cache d ! q) [0 ..< 2 * B]\<rparr>)"
    using LayerNorm_grid_ok [of ?G ?c B H d A junk, OF ok m] by simp
  moreover have "map (\<lambda>q. if q div H < blockDim_x ?c * ?G
                     then kernel_y A (mem_alpha d) (mem_beta d) (mem_x d) H 256 q else mem_y d ! q) [0 ..< B * H] =
                 map (kernel_y A (mem_alpha d) (mem_beta d) (mem_x d) H 256) [0 ..< B * H]"
  proof (rule map_cong [OF refl])
    fix q assume "q \<in> set [0 ..< B * H]"
    then have "q div H < B" by (simp add: div_lt_rows)
    then have "q div H < blockDim_x ?c * ?G" using cover by simp
    then show "(if q div H < blockDim_x ?c * ?G
                     then kernel_y A (mem_alpha d) (mem_beta d) (mem_x d) H 256 q else mem_y d ! q) =
               kernel_y A (mem_alpha d) (mem_beta d) (mem_x d) H 256 q" by simp
  qed
  moreover have "map (\<lambda>q. if q div 2 < blockDim_x ?c * ?G
                     then kernel_cache A (mem_x d) H 256 q else mem_cache d ! q) [0 ..< 2 * B] =
                 map (kernel_cache A (mem_x d) H 256) [0 ..< 2 * B]"
  proof (rule map_cong [OF refl])
    fix q assume "q \<in> set [0 ..< 2 * B]"
    then have "q div 2 < B" by simp
    then have "q div 2 < blockDim_x ?c * ?G" using cover by simp
    then show "(if q div 2 < blockDim_x ?c * ?G
                     then kernel_cache A (mem_x d) H 256 q else mem_cache d ! q) =
               kernel_cache A (mem_x d) H 256 q" by simp
  qed
  ultimately show ?thesis
    by (simp only: Run_def Let_def G)
qed

lemma Run_result:
  assumes "launch_pre B H" "mem_ok d B H"
  shows "Run A junk (int B) (int H) d =
         Inr (d\<lparr>mem_y := map (kernel_y A (mem_alpha d) (mem_beta d) (mem_x d) H 256) [0 ..< B * H],
                 mem_cache := map (kernel_cache A (mem_x d) H 256) [0 ..< 2 * B]\<rparr>)"
  using assms by (intro Run_ok) (simp_all add: launch_pre_def)

lemma cell_lt:
  fixes r i B H :: nat
  assumes "r < B" "i < H"
  shows "r * H + i < B * H"
  using assms by (rule slot_lt)

lemma cell_div_mod:
  fixes r i H :: nat
  assumes "i < H"
  shows "(r * H + i) div H = r" "(r * H + i) mod H = i"
  using assms by simp_all

lemma kernel_y_cell:
  assumes "i < H"
  shows "kernel_y A al be xs H st (r * H + i) =
         muladd_T A (times_T A (minus_T A (xs ! (r * H + i)) (kernel_mean A xs H st r))
                               (kernel_invstd A xs H st r)) (al ! i) (be ! i)"
  using assms by (simp add: kernel_y_def)

lemma kernel_cache_cell:
  "kernel_cache A xs H st (2 * r) = kernel_mean A xs H st r"
  "kernel_cache A xs H st (2 * r + 1) = kernel_invstd A xs H st r"
  by (simp_all add: kernel_cache_def)

subsection \<open>Exact arithmetic: the kernel's order of summation does not matter\<close>

lemma exact_fields [simp]:
  "zero_T exact = 0" "eps_T exact = 1 / 100000" "of_int_T exact = real_of_int"
  "plus_T exact = (+)" "minus_T exact = (-)" "times_T exact = (*)" "divide_T exact = (/)"
  "muladd_T exact = (\<lambda>a b c. a * b + c)" "rsqrt_T exact = rsqrt"
  by (simp_all add: exact_def)

lemma strided_fold_sum:
  fixes g :: "real \<Rightarrow> real" and bi hs st i :: nat
  assumes "0 < st"
  shows "strided_fold (\<lambda>acc v. acc + g v) xs bi hs st i acc =
         acc + (\<Sum>j\<in>{j. j < hs \<and> (\<exists>q. j = i + q * st)}. g (xs ! (bi + j)))"
proof (induction "hs - i" arbitrary: i acc rule: less_induct)
  case less
  show ?case
  proof (cases "i < hs")
    case False
    then have e: "{j. j < hs \<and> (\<exists>q. j = i + q * st)} = {}" by auto
    show ?thesis using False by (simp add: e strided_fold_stop)
  next
    case True
    let ?T = "{j. j < hs \<and> (\<exists>q. j = (i + st) + q * st)}"
    have fin: "finite ?T" by simp
    have notin: "i \<notin> ?T" using assms by simp
    have "strided_fold (\<lambda>acc v. acc + g v) xs bi hs st i acc =
          strided_fold (\<lambda>acc v. acc + g v) xs bi hs st (i + st) (acc + g (xs ! (bi + i)))"
      using True assms by (rule strided_fold_step)
    also have "\<dots> = acc + g (xs ! (bi + i)) + (\<Sum>j\<in>?T. g (xs ! (bi + j)))"
      using less [of "i + st" "acc + g (xs ! (bi + i))"] True assms by simp
    finally show ?thesis
      using strided_step [OF True, of st] fin notin by (simp add: add.assoc)
  qed
qed

lemma sum_split_half:
  fixes f :: "nat \<Rightarrow> real"
  shows "(\<Sum>t<2 * s. f t) = (\<Sum>t<s. f t) + (\<Sum>t<s. f (t + s))"
proof -
  have "(\<Sum>t<2 * s. f t) = sum f {0 ..< s} + sum f {s ..< 2 * s}"
    by (simp add: lessThan_atLeast0 sum.atLeastLessThan_concat)
  also have "sum f {s ..< 2 * s} = sum f {0 + s ..< s + s}" by (simp add: mult_2)
  also have "\<dots> = (\<Sum>t\<in>{0 ..< s}. f (t + s))" by (rule sum.shift_bounds_nat_ivl)
  finally show ?thesis by (simp add: lessThan_atLeast0)
qed

text \<open>
  With a bound that is a power of two, every slot below twice the bound reaches slot 0.
\<close>

lemma tree_rounds_pow2:
  fixes v :: "nat \<Rightarrow> real"
  shows "tree_rounds (+) (2 ^ p) v 0 = (\<Sum>t<2 * 2 ^ p. v t)"
proof (induction p arbitrary: v)
  case 0
  have "tree_rounds (+) (2 ^ 0) v 0 = v 0 + v 1"
    using tree_rounds_step [of "Suc 0" "(+)" v] by (simp add: tree_rounds_0 tree_round_def)
  moreover have "{..<2::nat} = {0, 1}" by auto
  ultimately show ?case by simp
next
  case (Suc p)
  let ?s = "2 ^ Suc p :: nat"
  let ?w = "tree_round (+) ?s v"
  have "tree_rounds (+) ?s v 0 = tree_rounds (+) (2 ^ p) ?w 0"
    by (subst tree_rounds_step) simp_all
  also have "\<dots> = (\<Sum>t<?s. ?w t)" using Suc [of ?w] by simp
  also have "\<dots> = (\<Sum>t<?s. v t + v (t + ?s))" by (intro sum.cong) (simp_all add: tree_round_def)
  also have "\<dots> = (\<Sum>t<?s. v t) + (\<Sum>t<?s. v (t + ?s))" by (rule sum.distrib)
  also have "\<dots> = (\<Sum>t<2 * ?s. v t)" by (rule sum_split_half [symmetric])
  finally show ?case .
qed

lemma tree_rounds_group:
  fixes v :: "nat \<Rightarrow> real"
  shows "tree_rounds (+) (2 ^ m div 2) v 0 = (\<Sum>t<2 ^ m. v t)"
proof (cases m)
  case 0
  then show ?thesis by (simp add: tree_rounds_0)
next
  case (Suc p)
  then show ?thesis using tree_rounds_pow2 [of p v] by simp
qed

lemma strided_group:
  fixes g :: "real \<Rightarrow> real"
  assumes "0 < st"
  shows "(\<Sum>t<st. \<Sum>j\<in>{j. j < H \<and> j mod st = t}. g (xs ! (bi + j))) = (\<Sum>j<H. g (xs ! (bi + j)))"
proof -
  have "(\<Sum>t\<in>{..<st}. \<Sum>j\<in>{j \<in> {..<H}. j mod st = t}. g (xs ! (bi + j))) = (\<Sum>j\<in>{..<H}. g (xs ! (bi + j)))"
    using assms by (intro sum.group) auto
  moreover have "{j \<in> {..<H}. j mod st = t} = {j. j < H \<and> j mod st = t}" for t by auto
  ultimately show ?thesis by simp
qed

lemma exact_reduction:
  fixes g :: "real \<Rightarrow> real"
  shows "tree_rounds (+) (2 ^ m div 2) (\<lambda>t. strided_fold (\<lambda>acc v. acc + g v) xs bi H (2 ^ m) t 0) 0 =
         (\<Sum>j<H. g (xs ! (bi + j)))"
proof -
  let ?st = "2 ^ m :: nat"
  have pos: "0 < ?st" by simp
  have "tree_rounds (+) (?st div 2) (\<lambda>t. strided_fold (\<lambda>acc v. acc + g v) xs bi H ?st t 0) 0 =
        (\<Sum>t<?st. strided_fold (\<lambda>acc v. acc + g v) xs bi H ?st t 0)"
    by (rule tree_rounds_group)
  also have "\<dots> = (\<Sum>t<?st. \<Sum>j\<in>{j. j < H \<and> j mod ?st = t}. g (xs ! (bi + j)))"
  proof (rule sum.cong [OF refl])
    fix t assume "t \<in> {..<?st}"
    then have t: "t < ?st" by simp
    show "strided_fold (\<lambda>acc v. acc + g v) xs bi H ?st t 0 =
          (\<Sum>j\<in>{j. j < H \<and> j mod ?st = t}. g (xs ! (bi + j)))"
      using strided_fold_sum [OF pos, of g xs bi H t 0] strided_mod [OF t, of H] by simp
  qed
  also have "\<dots> = (\<Sum>j<H. g (xs ! (bi + j)))" using pos by (rule strided_group)
  finally show ?thesis .
qed

lemma kernel_sum_exact: "kernel_sum exact xs H (2 ^ m) r = ref_sum xs H r"
  using exact_reduction [of m "\<lambda>v. v" xs "r * H" H] by (simp add: kernel_sum_def ref_sum_def)

lemma kernel_mean_exact: "kernel_mean exact xs H (2 ^ m) r = ref_mean xs H r"
  by (simp add: kernel_mean_def ref_mean_def kernel_sum_exact)

lemma kernel_sumsq_exact:
  "kernel_sumsq exact xs H (2 ^ m) r (ref_mean xs H r) = ref_sumsq xs H r"
proof -
  have "(\<lambda>acc v. (v - c) * (v - c) + acc) = (\<lambda>acc v. acc + (v - c) * (v - c))" for c :: real
    by (simp add: add.commute)
  then show ?thesis
    using exact_reduction [of m "\<lambda>v. (v - ref_mean xs H r) * (v - ref_mean xs H r)" xs "r * H" H]
    by (simp add: kernel_sumsq_def ref_sumsq_def power2_eq_square)
qed

lemma kernel_invstd_exact: "kernel_invstd exact xs H (2 ^ m) r = ref_invstd xs H r"
  by (simp add: kernel_invstd_def ref_invstd_def ref_variance_def kernel_mean_exact kernel_sumsq_exact)

lemma kernel_y_exact: "kernel_y exact al be xs H (2 ^ m) q = ref_y al be xs H q"
  by (simp add: kernel_y_def ref_y_def kernel_mean_exact kernel_invstd_exact)

lemma kernel_cache_exact: "kernel_cache exact xs H (2 ^ m) q = ref_cache xs H q"
  by (simp add: kernel_cache_def ref_cache_def kernel_mean_exact kernel_invstd_exact)

lemma kernel_y_exact_256: "kernel_y exact al be xs H 256 = ref_y al be xs H"
  using kernel_y_exact [of al be xs H 8] by (intro ext) simp

lemma kernel_cache_exact_256: "kernel_cache exact xs H 256 = ref_cache xs H"
  using kernel_cache_exact [of xs H 8] by (intro ext) simp

lemma Run_exact:
  assumes "launch_pre B H" "mem_ok d B H"
  shows "Run exact junk (int B) (int H) d =
         Inr (d\<lparr>mem_y := map (ref_y (mem_alpha d) (mem_beta d) (mem_x d) H) [0 ..< B * H],
                 mem_cache := map (ref_cache (mem_x d) H) [0 ..< 2 * B]\<rparr>)"
  using Run_result [OF assms, of exact junk]
  by (simp only: kernel_y_exact_256 kernel_cache_exact_256)

lemma ref_y_cell:
  assumes "i < H"
  shows "ref_y al be xs H (r * H + i) =
         (xs ! (r * H + i) - ref_mean xs H r) * rsqrt (ref_variance xs H r + 1 / 100000) * al ! i + be ! i"
  using assms by (simp add: ref_y_def ref_invstd_def)

subsection \<open>What the kernel leaves unchanged\<close>

lemma seq_Inr_iff: "seq m f = Inr v \<longleftrightarrow> (\<exists>u. m = Inr u \<and> f u = Inr v)"
  by (cases m) simp_all

lemma same_inputs_refl: "same_inputs d d"
  by (simp add: same_inputs_def)

lemma same_inputs_trans: "same_inputs d d' \<Longrightarrow> same_inputs d' d'' \<Longrightarrow> same_inputs d d''"
  by (simp add: same_inputs_def)

lemma y_loop_frame:
  "y_loop A d m iv bi hs st i = Inr d' \<Longrightarrow> same_inputs d d'"
proof (induction A d m iv bi hs st i rule: y_loop.induct)
  case (1 A d m iv bi hs st i)
  show ?case
  proof (cases "i < hs")
    case False
    then have "d' = d" using "1.prems" by (subst (asm) y_loop.simps) simp
    then show ?thesis by (simp add: same_inputs_refl)
  next
    case True
    from "1.prems" True obtain k v a b ys i' where
      st: "\<not> st \<le> 0" and k: "chk32 (bi + i) = Inr k" and v: "rd (mem_x d) k = Inr v"
      and a: "rd (mem_alpha d) i = Inr a" and b: "rd (mem_beta d) i = Inr b"
      and ys: "wr (mem_y d) k (muladd_T A (times_T A (minus_T A v m) iv) a b) = Inr ys" and i': "chk32 (i + st) = Inr i'"
      and rec: "y_loop A (d\<lparr>mem_y := ys\<rparr>) m iv bi hs st i' = Inr d'"
      by (subst (asm) y_loop.simps) (auto split: if_splits sum.splits)
    have "same_inputs (d\<lparr>mem_y := ys\<rparr>) d'"
      using "1.IH" [OF True st k v a b ys i' rec] .
    then show ?thesis by (simp add: same_inputs_def)
  qed
qed

lemma seg_sum_frame: "seg_sum A c g = Inr g' \<Longrightarrow> mem g' = mem g"
  by (auto simp: seg_sum_def seq_Inr_iff split: if_splits)

lemma seg_tree_frame: "seg_tree A s c g = Inr g' \<Longrightarrow> mem g' = mem g"
  by (auto simp: seg_tree_def seq_Inr_iff split: if_splits)

lemma seg_mean_frame: "seg_mean A c g = Inr g' \<Longrightarrow> mem g' = mem g"
  by (auto simp: seg_mean_def seq_Inr_iff split: if_splits)

lemma seg_sumsq_frame: "seg_sumsq A c g = Inr g' \<Longrightarrow> mem g' = mem g"
  by (auto simp: seg_sumsq_def seq_Inr_iff split: if_splits)

lemma seg_out_frame:
  assumes "seg_out A c g = Inr g'"
  shows "same_inputs (mem g) (mem g')"
proof (cases "returned c")
  case True
  then show ?thesis using assms by (simp add: seg_out_def same_inputs_refl)
next
  case False
  with assms obtain m iv bi hs st i d cs where
    "y_loop A (mem g) m iv bi hs st i = Inr d" and "g' = g\<lparr>mem := d\<lparr>mem_cache := cs\<rparr>\<rparr>"
    by (auto simp: seg_out_def seq_Inr_iff Let_def)
  then show ?thesis using y_loop_frame [of A "mem g" m iv bi hs st i d] by (simp add: same_inputs_def)
qed

lemma for_each_inv:
  assumes "\<And>c g g'. f c g = Inr g' \<Longrightarrow> P g \<Longrightarrow> P g'"
  shows "for_each f cs g = Inr g' \<Longrightarrow> P g \<Longrightarrow> P g'"
proof (induction cs arbitrary: g)
  case Nil
  then show ?case by simp
next
  case (Cons c cs)
  from Cons.prems(1) obtain g1 where g1: "f c g = Inr g1" "for_each f cs g1 = Inr g'"
    by (auto split: sum.splits)
  have "P g1" using assms [OF g1(1) Cons.prems(2)] .
  then show ?case using Cons.IH [OF g1(2)] by simp
qed

lemma tree_loop_frame: "tree_loop A s cs g = Inr g' \<Longrightarrow> P (mem g) \<Longrightarrow> P (mem g')"
proof (induction A s cs g rule: tree_loop.induct)
  case (1 A s cs g)
  show ?case
  proof (cases "s > 0")
    case False
    then have "g' = g" using "1.prems"(1) by (subst (asm) tree_loop.simps) simp
    then show ?thesis using "1.prems"(2) by simp
  next
    case True
    from "1.prems"(1) True obtain g1 where
      g1: "for_each (seg_tree A s) cs g = Inr g1" "tree_loop A (s div 2) cs g1 = Inr g'"
      by (subst (asm) tree_loop.simps) (auto split: sum.splits)
    have "P (mem g1)"
      using for_each_inv [of "seg_tree A s" "\<lambda>g. P (mem g)", OF _ g1(1) "1.prems"(2)] seg_tree_frame
      by metis
    then show ?thesis using "1.IH" [OF True g1(1) g1(2)] by simp
  qed
qed

lemma reduce_sum_frame: "reduce_sum A c g = Inr g' \<Longrightarrow> mem g' = mem g"
proof -
  assume "reduce_sum A c g = Inr g'"
  then obtain g1 where g1: "for_each (seg_sum A) (block_threads c) g = Inr g1"
      "tree_loop A (stride c div 2) (block_threads c) g1 = Inr g'"
    by (auto simp: reduce_sum_def seq_Inr_iff)
  have "mem g1 = mem g"
    using for_each_inv [of "seg_sum A" "\<lambda>h. mem h = mem g", OF _ g1(1)] seg_sum_frame by metis
  then show ?thesis using tree_loop_frame [OF g1(2), of "\<lambda>d. d = mem g"] by simp
qed

lemma reduce_sumsq_frame: "reduce_sumsq A c g = Inr g' \<Longrightarrow> mem g' = mem g"
proof -
  assume "reduce_sumsq A c g = Inr g'"
  then obtain g1 where g1: "for_each (seg_sumsq A) (block_threads c) g = Inr g1"
      "tree_loop A (stride c div 2) (block_threads c) g1 = Inr g'"
    by (auto simp: reduce_sumsq_def seq_Inr_iff)
  have "mem g1 = mem g"
    using for_each_inv [of "seg_sumsq A" "\<lambda>h. mem h = mem g", OF _ g1(1)] seg_sumsq_frame by metis
  then show ?thesis using tree_loop_frame [OF g1(2), of "\<lambda>d. d = mem g"] by simp
qed

lemma LayerNorm_block_frame:
  assumes "LayerNorm_block A junk c d = Inr d'"
  shows "same_inputs d d'"
proof -
  let ?n = "blockDim_x c * blockDim_y c"
  let ?g0 = "\<lparr>shared = map junk [0 ..< ?n], mean_reg = map junk [?n ..< ?n + ?n], mem = d\<rparr>"
  from assms obtain g1 g2 g3 g4 where
    g1: "reduce_sum A c ?g0 = Inr g1" and g2: "for_each (seg_mean A) (block_threads c) g1 = Inr g2"
    and g3: "reduce_sumsq A c g2 = Inr g3" and g4: "for_each (seg_out A) (block_threads c) g3 = Inr g4"
    and d': "d' = mem g4"
    by (auto simp: LayerNorm_block_def Let_def seq_Inr_iff)
  have "mem g1 = d" using reduce_sum_frame [OF g1] by simp
  moreover have "mem g2 = mem g1"
    using for_each_inv [of "seg_mean A" "\<lambda>h. mem h = mem g1", OF _ g2] seg_mean_frame by metis
  moreover have "mem g3 = mem g2" using g3 by (rule reduce_sumsq_frame)
  ultimately have "same_inputs d (mem g3)" by (simp add: same_inputs_refl)
  then have "same_inputs d (mem g4)"
    using for_each_inv [of "seg_out A" "\<lambda>h. same_inputs d (mem h)", OF _ g4]
      seg_out_frame same_inputs_trans by metis
  then show ?thesis by (simp add: d')
qed

lemma LayerNorm_frame:
  assumes "LayerNorm A junk G c d = Inr d'"
  shows "same_inputs d d'"
  using for_each_inv [of "\<lambda>b. LayerNorm_block A junk (c\<lparr>blockIdx_x := b\<rparr>)" "same_inputs d" "[0 ..< G]" d d']
    assms LayerNorm_block_frame same_inputs_trans same_inputs_refl
  unfolding LayerNorm_def by metis

subsection \<open>Single precision\<close>

lemma binary32_fields [simp]:
  "zero_T (binary32 fused rsq) = Fin 0"
  "eps_T (binary32 fused rsq) = round32 (1 / 100000)"
  "of_int_T (binary32 fused rsq) = (\<lambda>n. round32 (of_int n))"
  "plus_T (binary32 fused rsq) = add32"
  "minus_T (binary32 fused rsq) = sub32"
  "times_T (binary32 fused rsq) = mul32"
  "divide_T (binary32 fused rsq) = div32"
  "muladd_T (binary32 fused rsq) = muladd32 fused"
  "rsqrt_T (binary32 fused rsq) = rsq"
  by (simp_all add: binary32_def)

lemma round32_0 [simp]: "round32 0 = Fin 0"
  by (simp add: round32_def)

text \<open>
  A difference that is zero wipes out the inverse standard deviation: the output element
  is zero, or not a number when \<open>rsqrt\<close> returned no finite value.
\<close>

lemma zero_difference:
  "muladd32 fused (mul32 (Fin 0) s) (Fin 1) (Fin 0) = Fin 0 \<or>
   muladd32 fused (mul32 (Fin 0) s) (Fin 1) (Fin 0) = NaN"
  by (cases s; cases fused) (simp_all add: muladd32_def mul32_def add32_def)

subsection \<open>The tree reduction needs a power of two\<close>

text \<open>
  With a group of three workers the halving tree runs the single round \<open>s = 1\<close>: the
  partial sum of worker 2 never reaches slot 0, which ends with the first two combined.
\<close>

lemma odd_group_drops_a_slot:
  "tree_rounds f (3 div 2) v 0 = f (v 0) (v 1)"
  by (simp add: tree_rounds.simps tree_round_def)

section \<open>Properties of the GRU inference example\<close>

declare timestep_loop.simps [simp del]

lemma chk32_nat: "(k::nat) < 2 ^ 31 \<Longrightarrow> chk32 (int k) = Inr (int k)"
  using int_small [of k] by (simp add: chk32_def)

lemma s32_nat: "(k::nat) < 2 ^ 31 \<Longrightarrow> s32 (int k) = int k"
  using int_small [of k] by (simp add: s32_def)

lemma timestep_loop_trace:
  fixes T B I H :: nat
  assumes f1: "T * B < 2 ^ 31" and f2: "T * B * I < 2 ^ 31" and f3: "T * B * H * 3 < 2 ^ 31"
    and f4: "T < 2 ^ 31"
  shows "t \<le> T \<Longrightarrow>
         timestep_loop Iterate P (int T) (int B) (int I) (int H) (int t) s =
         Inr (s\<lparr>heap := fold (\<lambda>t h. Iterate (call_at P B I H t) h) [t ..< T] (heap s),
                calls := calls s @ map (call_at P B I H) [t ..< T]\<rparr>)"
proof (induction "T - t" arbitrary: t s)
  case 0
  then have "t = T" by simp
  then show ?case by (subst timestep_loop.simps) simp
next
  case (Suc n)
  then have t: "t < T" by simp
  then have le: "t * B \<le> T * B" by simp
  then have le2: "t * B * I \<le> T * B * I" and le3: "t * B * H * 3 \<le> T * B * H * 3"
    by (simp_all add: mult_le_mono1)
  have b1: "t * B < 2 ^ 31" using le f1 by (rule order_le_less_trans)
  have b2: "t * B * I < 2 ^ 31" using le2 f2 by (rule order_le_less_trans)
  have b4: "t * B * H * 3 < 2 ^ 31" using le3 f3 by (rule order_le_less_trans)
  have "t * B * H \<le> t * B * H * 3" by simp
  then have b3: "t * B * H < 2 ^ 31" using b4 by (rule order_le_less_trans)
  have c1: "chk32 (int t * int B) = Inr (int (t * B))"
    using chk32_nat [OF b1] by simp
  have c2: "chk32 (int (t * B) * int I) = Inr (int (t * B * I))"
    using chk32_nat [OF b2] by simp
  have c3: "chk32 (int (t * B) * int H) = Inr (int (t * B * H))"
    using chk32_nat [OF b3] by simp
  have c4: "chk32 (int (t * B * H) * 3) = Inr (int (t * B * H * 3))"
    using chk32_nat [OF b4] by simp
  have "Suc t < 2 ^ 31" using t f4 by simp
  from chk32_nat [OF this] have c5: "chk32 (int t + 1) = Inr (int (Suc t))"
    by (simp add: add.commute)
  let ?s' = "s\<lparr>heap := Iterate (call_at P B I H t) (heap s), calls := calls s @ [call_at P B I H t]\<rparr>"
  have "timestep_loop Iterate P (int T) (int B) (int I) (int H) (int t) s =
        timestep_loop Iterate P (int T) (int B) (int I) (int H) (int (Suc t)) ?s'"
    using t by (subst timestep_loop.simps)
      (simp add: c1 c2 c3 c4 c5 Let_def call_at_def del: of_nat_mult of_nat_add of_nat_Suc)
  also have "\<dots> = Inr (?s'\<lparr>heap := fold (\<lambda>t h. Iterate (call_at P B I H t) h) [Suc t ..< T] (heap ?s'),
                calls := calls ?s' @ map (call_at P B I H) [Suc t ..< T]\<rparr>)"
    using Suc.hyps(1) [of "Suc t" ?s'] Suc.hyps(2) t by simp
  finally show ?case using t by (simp add: upt_conv_Cons)
qed

lemma GruInference_result:
  assumes "gru_pre x R"
  defines "T \<equiv> dim3_2 x" and "B \<equiv> dim3_1 x" and "I \<equiv> dim3_0 x" and "H \<equiv> dim2_1 R"
  shows "GruInference Iterate junk W R bx br x =
         Inr (gru_ptrs0,
              \<lparr>allocated = [length (data2 W), length (data2 R), length (data1 bx), length (data1 br),
                             length (data3 x), B * H, T * B * H * 3, B * H * 3],
               heap = fold (\<lambda>t h. Iterate (call_at gru_ptrs0 B I H t) h) [0 ..< T]
                        [data2 W, data2 R, data1 bx, data1 br, data3 x, replicate (B * H) 0,
                         map junk [0 ..< T * B * H * 3], map junk [0 ..< B * H * 3]],
               calls = map (call_at gru_ptrs0 B I H) [0 ..< T]\<rparr>)"
proof -
  have f: "T < 2 ^ 31" "B < 2 ^ 31" "I < 2 ^ 31" "H < 2 ^ 31" "B * H * 3 < 2 ^ 31"
    "T * B < 2 ^ 31" "T * B * I < 2 ^ 31" "T * B * H * 3 < 2 ^ 31"
    using assms(1) by (simp_all add: gru_pre_def T_def B_def I_def H_def)
  have "B * H \<le> B * H * 3" by simp
  then have bh: "B * H < 2 ^ 31" using f(5) by (rule order_le_less_trans)
  have "T * B * H \<le> T * B * H * 3" by simp
  then have tbh: "T * B * H < 2 ^ 31" using f(8) by (rule order_le_less_trans)
  have dims: "s32 (int (dim3_2 x)) = int T" "s32 (int (dim3_1 x)) = int B"
    "s32 (int (dim3_0 x)) = int I" "s32 (int (dim2_1 R)) = int H"
    using f(1-4) by (simp_all add: s32_nat T_def B_def I_def H_def)
  have c: "chk32 (int B * int H) = Inr (int (B * H))"
    "chk32 (int T * int B) = Inr (int (T * B))"
    "chk32 (int (T * B) * int H) = Inr (int (T * B * H))"
    "chk32 (int (T * B * H) * 3) = Inr (int (T * B * H * 3))"
    "chk32 (int (B * H) * 3) = Inr (int (B * H * 3))"
    using chk32_nat [OF bh] chk32_nat [OF f(6)] chk32_nat [OF tbh] chk32_nat [OF f(8)]
      chk32_nat [OF f(5)] by simp_all
  let ?s9 = "\<lparr>allocated = [length (data2 W), length (data2 R), length (data1 bx), length (data1 br),
                             length (data3 x), B * H, T * B * H * 3, B * H * 3],
               heap = [data2 W, data2 R, data1 bx, data1 br, data3 x, replicate (B * H) 0,
                         map junk [0 ..< T * B * H * 3], map junk [0 ..< B * H * 3]],
               calls = []\<rparr>"
  have loop: "timestep_loop Iterate gru_ptrs0 (int T) (int B) (int I) (int H) 0 ?s9 =
        Inr (?s9\<lparr>heap := fold (\<lambda>t h. Iterate (call_at gru_ptrs0 B I H t) h) [0 ..< T] (heap ?s9),
                calls := calls ?s9 @ map (call_at gru_ptrs0 B I H) [0 ..< T]\<rparr>)"
    using timestep_loop_trace [OF f(6) f(7) f(8) f(1), of 0 Iterate gru_ptrs0 ?s9] by simp
  have P: "\<lparr>W_dev = Ptr 0 0, R_dev = Ptr (Suc 0) 0, bx_dev = Ptr (Suc (Suc 0)) 0,
              br_dev = Ptr (Suc (Suc (Suc 0))) 0, x_dev = Ptr (Suc (Suc (Suc (Suc 0)))) 0,
              h_dev = Ptr (Suc (Suc (Suc (Suc (Suc 0))))) 0,
              tmp_Wx_dev = Ptr (Suc (Suc (Suc (Suc (Suc (Suc 0)))))) 0,
              tmp_Rh_dev = Ptr (Suc (Suc (Suc (Suc (Suc (Suc (Suc 0))))))) 0\<rparr> = gru_ptrs0"
    by (simp add: gru_ptrs0_def eval_nat_numeral)
  show ?thesis
    unfolding GruInference_def dims Let_def
    by (simp add: device_ptr_copy_def device_ptr_scratch_def zero_def c P
        loop del: of_nat_mult of_nat_add upt_Suc)
qed

section \<open>The claims\<close>

lemma mean_hits_an_element:
  "kernel_mean (binary32 fused rsq) [Fin 16777216, Fin 16777218] 2 256 0 = Fin 16777216"
  by (simp add: kernel_mean_def kernel_sum_def tree_rounds.simps tree_round_def strided_fold.simps
      add32_def div32_def round32_def overflow32_def round_to_def ilog2_def rne_def nearest_even_def
      pow2_def bitlen.simps)

lemma sub32_self: "sub32 (Fin a) (Fin a) = Fin 0"
  by (simp add: sub32_def neg32_def add32_def)

text \<open>
  Claim C1 does not hold in \<open>float\<close>, not even approximately.  The row
  \<open>(2\<^sup>2\<^sup>4, 2\<^sup>2\<^sup>4 + 2)\<close> consists of binary32 numbers; its mean is \<open>2\<^sup>2\<^sup>4 + 1\<close>, its
  variance 1, so with \<open>alpha = 1\<close> and \<open>beta = 0\<close> the equation of the claim gives
  \<open>- rsqrt(1 + 1e-5)\<close> for the first element.  In \<open>float\<close> the sum \<open>2\<^sup>2\<^sup>5 + 2\<close> of the row
  is a tie and rounds to \<open>2\<^sup>2\<^sup>5\<close>, the mean the kernel computes is the first element
  itself, and the first output is zero (not a number, should \<open>rsqrt\<close> return no finite
  value): whatever \<open>rsqrt\<close> returns, whether or not the compiler fuses.
\<close>

theorem layer_norm_output_counterexample:
  "ref_mean [16777216, 16777218] 2 0 = 16777217 \<and>
   ref_variance [16777216, 16777218] 2 0 = 1 \<and>
   round32 16777216 = Fin 16777216 \<and> round32 16777218 = Fin 16777218 \<and>
   (\<forall>fused rsq junk. \<exists>d'.
      Run (binary32 fused rsq) junk 1 2
        \<lparr>mem_alpha = [Fin 1, Fin 1], mem_beta = [Fin 0, Fin 0],
         mem_x = [Fin 16777216, Fin 16777218], mem_y = [NaN, NaN], mem_cache = [NaN, NaN]\<rparr> = Inr d' \<and>
      (mem_y d' ! 0 = Fin 0 \<or> mem_y d' ! 0 = NaN) \<and>
      mem_y d' ! 0 \<noteq>
        Fin ((16777216 - ref_mean [16777216, 16777218] 2 0)
             * rsqrt (ref_variance [16777216, 16777218] 2 0 + 1 / 100000) * 1 + 0))"
proof -
  let ?d = "\<lparr>mem_alpha = [Fin 1, Fin 1], mem_beta = [Fin 0, Fin 0],
         mem_x = [Fin 16777216, Fin 16777218], mem_y = [NaN, NaN], mem_cache = [NaN, NaN]\<rparr>"
  have s: "{..<2::nat} = {0, 1}" by auto
  have mean: "ref_mean [16777216, 16777218] 2 0 = 16777217"
    by (simp add: ref_mean_def ref_sum_def s)
  have var: "ref_variance [16777216, 16777218] 2 0 = 1"
    by (simp add: ref_variance_def ref_sumsq_def mean s)
  have r1: "round32 16777216 = Fin 16777216"
    by (simp add: round32_def overflow32_def round_to_def ilog2_def rne_def nearest_even_def pow2_def bitlen.simps)
  have r2: "round32 16777218 = Fin 16777218"
    by (simp add: round32_def overflow32_def round_to_def ilog2_def rne_def nearest_even_def pow2_def bitlen.simps)
  have claimed: "(16777216 - ref_mean [16777216, 16777218] 2 0)
             * rsqrt (ref_variance [16777216, 16777218] 2 0 + 1 / 100000) * 1 + 0 \<noteq> 0"
    by (simp add: mean var rsqrt_def)
  have run: "\<exists>d'. Run (binary32 fused rsq) junk 1 2 ?d = Inr d' \<and>
      (mem_y d' ! 0 = Fin 0 \<or> mem_y d' ! 0 = NaN) \<and>
      mem_y d' ! 0 \<noteq>
        Fin ((16777216 - ref_mean [16777216, 16777218] 2 0)
             * rsqrt (ref_variance [16777216, 16777218] 2 0 + 1 / 100000) * 1 + 0)" for fused rsq junk
  proof -
    let ?A = "binary32 fused rsq"
    have p: "launch_pre 1 2" by (simp add: launch_pre_def)
    have m: "mem_ok ?d 1 2" by (simp add: mem_ok_def)
    let ?d' = "?d\<lparr>mem_y := map (kernel_y ?A (mem_alpha ?d) (mem_beta ?d) (mem_x ?d) 2 256) [0 ..< 1 * 2],
                   mem_cache := map (kernel_cache ?A (mem_x ?d) 2 256) [0 ..< 2 * 1]\<rparr>"
    have run: "Run ?A junk 1 2 ?d = Inr ?d'"
      using Run_result [OF p m, of ?A junk] by simp
    have "mem_y ?d' ! 0 = kernel_y ?A (mem_alpha ?d) (mem_beta ?d) (mem_x ?d) 2 256 0"
      by (simp del: upt_Suc add: upt_conv_Cons)
    also have "\<dots> = muladd32 fused (mul32 (Fin 0) (kernel_invstd ?A (mem_x ?d) 2 256 0)) (Fin 1) (Fin 0)"
      by (simp add: kernel_y_def mean_hits_an_element sub32_self)
    finally have y: "mem_y ?d' ! 0 =
        muladd32 fused (mul32 (Fin 0) (kernel_invstd ?A (mem_x ?d) 2 256 0)) (Fin 1) (Fin 0)" .
    have z: "mem_y ?d' ! 0 = Fin 0 \<or> mem_y ?d' ! 0 = NaN"
      unfolding y by (rule zero_difference)
    then have "mem_y ?d' ! 0 \<noteq>
        Fin ((16777216 - ref_mean [16777216, 16777218] 2 0)
             * rsqrt (ref_variance [16777216, 16777218] 2 0 + 1 / 100000) * 1 + 0)"
      using claimed by auto
    with run z show ?thesis by blast
  qed
  show ?thesis using mean var r1 r2 run by blast
qed

text \<open>
  Claim C1, amended.  After \<open>Run\<close>, for every row \<open>r < batch_size\<close> and every column
  \<open>i < hidden_size\<close>, \<open>y[r][i] = (x[r][i] - m) * s * alpha[i] + beta[i]\<close> evaluated in \<open>T\<close>,
  where \<open>m\<close> and \<open>s\<close> are the mean and the inverse standard deviation
  \<open>rsqrt(variance + 1e-5)\<close> of row \<open>r\<close> as the kernel's two reductions compute them in \<open>T\<close>
  (\<open>kernel_mean\<close>, \<open>kernel_invstd\<close>); \<open>alpha\<close> and \<open>beta\<close> are indexed by the column only.
  In exact arithmetic \<open>m\<close> is the arithmetic mean \<open>mean(r)\<close> and \<open>s\<close> is
  \<open>rsqrt(variance(r) + 1e-5)\<close> with the population variance of row \<open>r\<close> of \<open>x\<close>: there the
  equation of the claim holds as it stands.  The shape is one whose indices fit a C++
  \<open>int\<close> (\<open>launch_pre\<close>) and the buffers have the sizes the kernel expects (\<open>mem_ok\<close>: \<open>d\<close>
  in \<open>T\<close>, \<open>e\<close> in exact arithmetic); \<open>junk\<close> is what shared memory holds at the launch.
\<close>

theorem layer_norm_output:
  assumes "launch_pre B H" and "mem_ok d B H" and "mem_ok e B H" and "r < B" and "i < H"
  shows "(\<exists>d'. Run A junk (int B) (int H) d = Inr d' \<and>
            mem_y d' ! (r * H + i) =
              muladd_T A
                (times_T A (minus_T A (mem_x d ! (r * H + i)) (kernel_mean A (mem_x d) H 256 r))
                           (kernel_invstd A (mem_x d) H 256 r))
                (mem_alpha d ! i) (mem_beta d ! i)) \<and>
         (\<exists>e'. Run exact junk' (int B) (int H) e = Inr e' \<and>
            mem_y e' ! (r * H + i) =
              (mem_x e ! (r * H + i) - ref_mean (mem_x e) H r)
                * rsqrt (ref_variance (mem_x e) H r + 1 / 100000) * mem_alpha e ! i + mem_beta e ! i)"
proof -
  have cell: "r * H + i < B * H" using assms(4,5) by (rule cell_lt)
  have 1: "\<exists>d'. Run A junk (int B) (int H) d = Inr d' \<and>
            mem_y d' ! (r * H + i) =
              muladd_T A
                (times_T A (minus_T A (mem_x d ! (r * H + i)) (kernel_mean A (mem_x d) H 256 r))
                           (kernel_invstd A (mem_x d) H 256 r))
                (mem_alpha d ! i) (mem_beta d ! i)"
    using cell Run_result [OF assms(1,2), of A junk]
      kernel_y_cell [OF assms(5), of A "mem_alpha d" "mem_beta d" "mem_x d" 256 r]
    by (simp del: upt_Suc)
  have 2: "\<exists>e'. Run exact junk' (int B) (int H) e = Inr e' \<and>
            mem_y e' ! (r * H + i) =
              (mem_x e ! (r * H + i) - ref_mean (mem_x e) H r)
                * rsqrt (ref_variance (mem_x e) H r + 1 / 100000) * mem_alpha e ! i + mem_beta e ! i"
    using cell Run_exact [OF assms(1,3), of junk']
      ref_y_cell [OF assms(5), of "mem_alpha e" "mem_beta e" "mem_x e" r]
    by (simp del: upt_Suc)
  show ?thesis using 1 2 by (rule conjI)
qed

theorem layer_norm_output_witness:
  "launch_pre 2 3 \<and>
   mem_ok \<lparr>mem_alpha = [1, 2, 3], mem_beta = [4, 5, 6], mem_x = [1, 2, 3, 4, 5, 9 :: real],
           mem_y = [0, 0, 0, 0, 0, 0], mem_cache = [0, 0, 0, 0]\<rparr> 2 3 \<and>
   (\<exists>d'. Run exact (\<lambda>k. 0) 2 3 \<lparr>mem_alpha = [1, 2, 3], mem_beta = [4, 5, 6], mem_x = [1, 2, 3, 4, 5, 9],
           mem_y = [0, 0, 0, 0, 0, 0], mem_cache = [0, 0, 0, 0]\<rparr> = Inr d' \<and>
      mem_y d' ! 5 = (9 - 6) * rsqrt (14 / 3 + 1 / 100000) * 3 + 6)"
proof -
  let ?d = "\<lparr>mem_alpha = [1, 2, 3], mem_beta = [4, 5, 6], mem_x = [1, 2, 3, 4, 5, 9],
           mem_y = [0, 0, 0, 0, 0, 0], mem_cache = [0, 0, 0, 0]\<rparr> :: real device_mem"
  have p: "launch_pre 2 3" by (simp add: launch_pre_def)
  have m: "mem_ok ?d 2 3" by (simp add: mem_ok_def)
  have s: "{..<3::nat} = {0, 1, 2}" by auto
  have mean: "ref_mean [1, 2, 3, 4, 5, 9] 3 (Suc 0) = 6"
    by (simp add: ref_mean_def ref_sum_def s)
  have var: "ref_variance [1, 2, 3, 4, 5, 9] 3 (Suc 0) = 14 / 3"
    by (simp add: ref_variance_def ref_sumsq_def mean s)
  show ?thesis
    using conjunct2 [OF layer_norm_output [OF p m m, of 1 2 exact "\<lambda>k. 0" "\<lambda>k. 0"]] p m mean var by simp
qed

lemma two_phase_generic:
  assumes ok: "shape_ok c B H"
    and lx: "length (mem_x (mem g)) = B * H"
    and ls: "length (shared g) = blockDim_x c * blockDim_y c"
    and lr: "length (mean_reg g) = blockDim_x c * blockDim_y c"
    and tx: "tx < blockDim_x c" and r: "r = blockDim_x c * blockIdx_x c + tx" and rB: "r < B"
  shows "\<exists>g1 g2 g3.
           reduce_sum A c g = Inr g1 \<and>
           shared g1 ! (tx * blockDim_y c) = kernel_sum A (mem_x (mem g)) H (blockDim_y c) r \<and>
           for_each (seg_mean A) (block_threads c) g1 = Inr g2 \<and>
           (\<forall>ty<blockDim_y c. mean_reg g2 ! (tx * blockDim_y c + ty) =
              kernel_mean A (mem_x (mem g)) H (blockDim_y c) r) \<and>
           reduce_sumsq A c g2 = Inr g3 \<and>
           shared g3 ! (tx * blockDim_y c) =
             kernel_sumsq A (mem_x (mem g)) H (blockDim_y c) r (kernel_mean A (mem_x (mem g)) H (blockDim_y c) r)"
proof -
  let ?n = "blockDim_x c * blockDim_y c"
  let ?st = "blockDim_y c"
  let ?xs = "mem_x (mem g)"
  let ?kmean = "kernel_mean A ?xs H ?st"
  have st: "0 < ?st" using ok by (simp add: shape_ok_def)
  have row: "row_of c k = blockDim_x c * blockIdx_x c + k div ?st" for k by (simp add: row_of_def)
  from reduce_sum_ok [OF ok lx ls, of A] lr obtain g1 where g1:
    "reduce_sum A c g = Inr g1" "mem g1 = mem g" "length (mean_reg g1) = ?n" "length (shared g1) = ?n"
    "\<forall>tx<blockDim_x c. blockDim_x c * blockIdx_x c + tx < B \<longrightarrow>
        shared g1 ! (tx * ?st) = kernel_sum A ?xs H ?st (blockDim_x c * blockIdx_x c + tx)"
    by auto
  let ?g2 = "g1\<lparr>mean_reg := map (\<lambda>k. if row_of c k < B
                 then divide_T A (shared g1 ! (k div ?st * ?st)) (of_int_T A (int H))
                 else mean_reg g1 ! k) [0 ..< ?n]\<rparr>"
  have g2: "for_each (seg_mean A) (block_threads c) g1 = Inr ?g2"
    using ok g1(4) g1(3) by (rule seg_mean_all)
  have mr: "\<forall>k<?n. row_of c k < B \<longrightarrow> mean_reg ?g2 ! k = ?kmean (row_of c k)"
  proof (intro allI impI)
    fix k assume k: "k < ?n" "row_of c k < B"
    have "k div ?st < blockDim_x c" using k(1) by (rule div_lt_of_lt_mult)
    then have "shared g1 ! (k div ?st * ?st) = kernel_sum A ?xs H ?st (row_of c k)"
      using g1(5) k(2) by (simp add: row)
    then show "mean_reg ?g2 ! k = ?kmean (row_of c k)"
      using k by (simp add: kernel_mean_def del: upt_Suc)
  qed
  have "length (mem_x (mem ?g2)) = B * H" "length (shared ?g2) = ?n" "length (mean_reg ?g2) = ?n"
    using lx g1 by simp_all
  from reduce_sumsq_ok [OF ok this mr, of A] obtain g3 where g3:
    "reduce_sumsq A c ?g2 = Inr g3"
    "\<forall>tx<blockDim_x c. blockDim_x c * blockIdx_x c + tx < B \<longrightarrow>
        shared g3 ! (tx * ?st) =
        kernel_sumsq A ?xs H ?st (blockDim_x c * blockIdx_x c + tx) (?kmean (blockDim_x c * blockIdx_x c + tx))"
    using g1(2) by auto
  have a: "shared g1 ! (tx * ?st) = kernel_sum A ?xs H ?st r" using g1(5) tx r rB by simp
  have b: "mean_reg ?g2 ! (tx * ?st + ty) = ?kmean r" if "ty < ?st" for ty
  proof -
    have "tx * ?st + ty < ?n" using tx that by (rule slot_lt)
    moreover have "row_of c (tx * ?st + ty) = r"
      using r by (simp add: row_of_slot [OF st that])
    ultimately show ?thesis using mr rB by simp
  qed
  have c: "shared g3 ! (tx * ?st) = kernel_sumsq A ?xs H ?st r (?kmean r)" using g3(2) tx r rB by simp
  show ?thesis using g1(1) a g2 b g3(1) c by blast
qed

lemma tree_loses_a_bit:
  "kernel_sum (binary32 fused rsq) [Fin (1 / 2 ^ 24), Fin (1 / 2 ^ 24), Fin 1, Fin 0] 4 256 0 = Fin 1"
  by (simp add: kernel_sum_def tree_rounds.simps tree_round_def strided_fold.simps
      add32_def round32_def overflow32_def round_to_def ilog2_def rne_def nearest_even_def pow2_def bitlen.simps)

text \<open>
  Claim C2 does not hold in \<open>float\<close>.  The row \<open>(2\<^sup>-\<^sup>2\<^sup>4, 2\<^sup>-\<^sup>2\<^sup>4, 1, 0)\<close> consists of
  binary32 numbers and so does its sum \<open>1 + 2\<^sup>-\<^sup>2\<^sup>3\<close>, which adding the elements from left
  to right in \<open>float\<close> gives.  In the block launched by \<open>Run\<close> (groups of 256 workers) the
  tree adds \<open>2\<^sup>-\<^sup>2\<^sup>4\<close> to \<open>1\<close> and then \<open>2\<^sup>-\<^sup>2\<^sup>4\<close> to the result: both sums are ties, both
  round to \<open>1\<close>, and the first reduction leaves \<open>1\<close> in the row's slot.
\<close>

theorem two_phase_reduction_counterexample:
  "ref_sum [1 / 2 ^ 24, 1 / 2 ^ 24, 1, 0] 4 0 = 1 + 1 / 2 ^ 23 \<and>
   round32 (1 / 2 ^ 24) = Fin (1 / 2 ^ 24) \<and>
   round32 (1 + 1 / 2 ^ 23) = Fin (1 + 1 / 2 ^ 23) \<and>
   foldl add32 (Fin 0) [Fin (1 / 2 ^ 24), Fin (1 / 2 ^ 24), Fin 1, Fin 0] = Fin (1 + 1 / 2 ^ 23) \<and>
   (\<forall>fused rsq. \<exists>g'.
      reduce_sum (binary32 fused rsq)
        \<lparr>batch_size = 1, hidden_size = 4, blockDim_x = 4, blockDim_y = 256,
         blockIdx_x = 0, threadIdx_x = 0, threadIdx_y = 0\<rparr>
        \<lparr>shared = replicate 1024 NaN, mean_reg = replicate 1024 NaN,
         mem = \<lparr>mem_alpha = replicate 4 (Fin 1), mem_beta = replicate 4 (Fin 0),
                mem_x = [Fin (1 / 2 ^ 24), Fin (1 / 2 ^ 24), Fin 1, Fin 0],
                mem_y = replicate 4 NaN, mem_cache = [NaN, NaN]\<rparr>\<rparr> = Inr g' \<and>
      shared g' ! 0 = Fin 1)"
proof -
  let ?c = "\<lparr>batch_size = 1, hidden_size = 4, blockDim_x = 4, blockDim_y = 256,
         blockIdx_x = 0, threadIdx_x = 0, threadIdx_y = 0\<rparr> :: thread_ctx"
  let ?g = "\<lparr>shared = replicate 1024 NaN, mean_reg = replicate 1024 NaN,
         mem = \<lparr>mem_alpha = replicate 4 (Fin 1), mem_beta = replicate 4 (Fin 0),
                mem_x = [Fin (1 / 2 ^ 24), Fin (1 / 2 ^ 24), Fin 1, Fin 0],
                mem_y = replicate 4 NaN, mem_cache = [NaN, NaN]\<rparr>\<rparr>"
  have s: "{..<4::nat} = {0, 1, 2, 3}" by auto
  have 1: "ref_sum [1 / 2 ^ 24, 1 / 2 ^ 24, 1, 0] 4 0 = 1 + 1 / 2 ^ 23"
    by (simp add: ref_sum_def s)
  have 2: "round32 (1 / 2 ^ 24) = Fin (1 / 2 ^ 24)"
    by (simp add: round32_def overflow32_def round_to_def ilog2_def rne_def nearest_even_def pow2_def bitlen.simps)
  have 3: "round32 (1 + 1 / 2 ^ 23) = Fin (1 + 1 / 2 ^ 23)"
    by (simp add: round32_def overflow32_def round_to_def ilog2_def rne_def nearest_even_def pow2_def bitlen.simps)
  have 4: "foldl add32 (Fin 0) [Fin (1 / 2 ^ 24), Fin (1 / 2 ^ 24), Fin 1, Fin 0] = Fin (1 + 1 / 2 ^ 23)"
    by (simp add: add32_def round32_def overflow32_def round_to_def ilog2_def rne_def nearest_even_def pow2_def bitlen.simps)
  have 5: "\<exists>g'. reduce_sum (binary32 fused rsq) ?c ?g = Inr g' \<and> shared g' ! 0 = Fin 1" for fused rsq
  proof -
    have ok: "shape_ok ?c 1 4" by (simp add: shape_ok_def)
    have l: "length (mem_x (mem ?g)) = 1 * 4" "length (shared ?g) = blockDim_x ?c * blockDim_y ?c"
      by simp_all
    from reduce_sum_ok [OF ok l, of "binary32 fused rsq"] obtain g' where
      "reduce_sum (binary32 fused rsq) ?c ?g = Inr g'"
      "\<forall>tx<blockDim_x ?c. blockDim_x ?c * blockIdx_x ?c + tx < 1 \<longrightarrow>
         shared g' ! (tx * blockDim_y ?c) =
         kernel_sum (binary32 fused rsq) (mem_x (mem ?g)) 4 (blockDim_y ?c) (blockDim_x ?c * blockIdx_x ?c + tx)"
      by blast
    then show ?thesis using tree_loses_a_bit [of fused rsq] by auto
  qed
  show ?thesis using 1 2 3 4 5 by blast
qed

text \<open>
  Claim C2, amended.  For every row \<open>r\<close> a block handles, phase 1 (strided partial sums,
  then the halving tree) leaves in the row's first shared slot the sum of the row's
  \<open>hidden_size\<close> elements as added in \<open>T\<close> in the kernel's order (\<open>kernel_sum\<close>: every
  worker's elements from left to right, the partial sums pairwise by the tree); the mean
  every worker of the group then reads is that sum divided in \<open>T\<close> by \<open>hidden_size\<close>.
  Phase 2, the same reduction over the squared differences from that mean, leaves their
  sum in the same order (\<open>kernel_sumsq\<close>).  With exact arithmetic and a group size
  \<open>blockDim.y\<close> that is a power of two (256 in \<open>Run\<close>) these are exactly the sum, the
  mean and the sum of squared deviations of the naive definition, from which the
  variance is derived.  The statement is about one block \<open>c\<close> in any state with buffers of
  the right sizes (\<open>g\<close> in \<open>T\<close>, \<open>e\<close> in exact arithmetic), and about the group \<open>tx\<close> of that
  block, which works on row \<open>r\<close>.
\<close>

theorem two_phase_reduction:
  assumes "shape_ok c B H"
    and "length (mem_x (mem g)) = B * H"
    and "length (shared g) = blockDim_x c * blockDim_y c"
    and "length (mean_reg g) = blockDim_x c * blockDim_y c"
    and "length (mem_x (mem e)) = B * H"
    and "length (shared e) = blockDim_x c * blockDim_y c"
    and "length (mean_reg e) = blockDim_x c * blockDim_y c"
    and "tx < blockDim_x c" and "r = blockDim_x c * blockIdx_x c + tx" and "r < B"
  shows "(\<exists>g1 g2 g3.
            reduce_sum A c g = Inr g1 \<and>
            shared g1 ! (tx * blockDim_y c) = kernel_sum A (mem_x (mem g)) H (blockDim_y c) r \<and>
            for_each (seg_mean A) (block_threads c) g1 = Inr g2 \<and>
            (\<forall>ty<blockDim_y c. mean_reg g2 ! (tx * blockDim_y c + ty) =
               divide_T A (kernel_sum A (mem_x (mem g)) H (blockDim_y c) r) (of_int_T A (int H))) \<and>
            reduce_sumsq A c g2 = Inr g3 \<and>
            shared g3 ! (tx * blockDim_y c) =
              kernel_sumsq A (mem_x (mem g)) H (blockDim_y c) r
                (divide_T A (kernel_sum A (mem_x (mem g)) H (blockDim_y c) r) (of_int_T A (int H)))) \<and>
         (blockDim_y c = 2 ^ m \<longrightarrow>
          (\<exists>e1 e2 e3.
            reduce_sum exact c e = Inr e1 \<and>
            shared e1 ! (tx * blockDim_y c) = ref_sum (mem_x (mem e)) H r \<and>
            for_each (seg_mean exact) (block_threads c) e1 = Inr e2 \<and>
            (\<forall>ty<blockDim_y c. mean_reg e2 ! (tx * blockDim_y c + ty) = ref_mean (mem_x (mem e)) H r) \<and>
            reduce_sumsq exact c e2 = Inr e3 \<and>
            shared e3 ! (tx * blockDim_y c) = ref_sumsq (mem_x (mem e)) H r \<and>
            shared e3 ! (tx * blockDim_y c) / real H = ref_variance (mem_x (mem e)) H r))"
proof (intro conjI impI)
  show "\<exists>g1 g2 g3.
            reduce_sum A c g = Inr g1 \<and>
            shared g1 ! (tx * blockDim_y c) = kernel_sum A (mem_x (mem g)) H (blockDim_y c) r \<and>
            for_each (seg_mean A) (block_threads c) g1 = Inr g2 \<and>
            (\<forall>ty<blockDim_y c. mean_reg g2 ! (tx * blockDim_y c + ty) =
               divide_T A (kernel_sum A (mem_x (mem g)) H (blockDim_y c) r) (of_int_T A (int H))) \<and>
            reduce_sumsq A c g2 = Inr g3 \<and>
            shared g3 ! (tx * blockDim_y c) =
              kernel_sumsq A (mem_x (mem g)) H (blockDim_y c) r
                (divide_T A (kernel_sum A (mem_x (mem g)) H (blockDim_y c) r) (of_int_T A (int H)))"
    using two_phase_generic [OF assms(1,2,3,4,8,9,10), of A] by (simp add: kernel_mean_def)
next
  assume pow: "blockDim_y c = 2 ^ m"
  from two_phase_generic [OF assms(1,5,6,7,8,9,10), of exact] obtain e1 e2 e3 where e:
    "reduce_sum exact c e = Inr e1"
    "shared e1 ! (tx * blockDim_y c) = kernel_sum exact (mem_x (mem e)) H (blockDim_y c) r"
    "for_each (seg_mean exact) (block_threads c) e1 = Inr e2"
    "\<forall>ty<blockDim_y c. mean_reg e2 ! (tx * blockDim_y c + ty) =
        kernel_mean exact (mem_x (mem e)) H (blockDim_y c) r"
    "reduce_sumsq exact c e2 = Inr e3"
    "shared e3 ! (tx * blockDim_y c) =
       kernel_sumsq exact (mem_x (mem e)) H (blockDim_y c) r (kernel_mean exact (mem_x (mem e)) H (blockDim_y c) r)"
    by blast
  have a: "shared e1 ! (tx * blockDim_y c) = ref_sum (mem_x (mem e)) H r"
    using e(2) by (simp add: pow kernel_sum_exact)
  have b: "\<forall>ty<blockDim_y c. mean_reg e2 ! (tx * blockDim_y c + ty) = ref_mean (mem_x (mem e)) H r"
    using e(4) by (simp add: pow kernel_mean_exact)
  have c: "shared e3 ! (tx * blockDim_y c) = ref_sumsq (mem_x (mem e)) H r"
    using e(6) by (simp add: pow kernel_mean_exact kernel_sumsq_exact)
  then have d: "shared e3 ! (tx * blockDim_y c) / real H = ref_variance (mem_x (mem e)) H r"
    by (simp add: ref_variance_def)
  show "\<exists>e1 e2 e3.
            reduce_sum exact c e = Inr e1 \<and>
            shared e1 ! (tx * blockDim_y c) = ref_sum (mem_x (mem e)) H r \<and>
            for_each (seg_mean exact) (block_threads c) e1 = Inr e2 \<and>
            (\<forall>ty<blockDim_y c. mean_reg e2 ! (tx * blockDim_y c + ty) = ref_mean (mem_x (mem e)) H r) \<and>
            reduce_sumsq exact c e2 = Inr e3 \<and>
            shared e3 ! (tx * blockDim_y c) = ref_sumsq (mem_x (mem e)) H r \<and>
            shared e3 ! (tx * blockDim_y c) / real H = ref_variance (mem_x (mem e)) H r"
    using e(1) a e(3) b e(5) c d by blast
qed

theorem two_phase_reduction_witness:
  "shape_ok \<lparr>batch_size = 2, hidden_size = 3, blockDim_x = 4, blockDim_y = 256,
             blockIdx_x = 0, threadIdx_x = 0, threadIdx_y = 0\<rparr> 2 3 \<and>
   (256 :: nat) = 2 ^ 8 \<and> (1 :: nat) < 4 \<and> (1 :: nat) < 2 \<and>
   (\<exists>g1 g2 g3.
      reduce_sum exact \<lparr>batch_size = 2, hidden_size = 3, blockDim_x = 4, blockDim_y = 256,
             blockIdx_x = 0, threadIdx_x = 0, threadIdx_y = 0\<rparr>
        \<lparr>shared = replicate 1024 7, mean_reg = replicate 1024 7,
         mem = \<lparr>mem_alpha = [1, 2, 3], mem_beta = [4, 5, 6], mem_x = [1, 2, 3, 4, 5, 9],
                mem_y = [0, 0, 0, 0, 0, 0], mem_cache = [0, 0, 0, 0]\<rparr>\<rparr> = Inr g1 \<and>
      shared g1 ! 256 = 18 \<and>
      for_each (seg_mean exact) (block_threads \<lparr>batch_size = 2, hidden_size = 3, blockDim_x = 4, blockDim_y = 256,
             blockIdx_x = 0, threadIdx_x = 0, threadIdx_y = 0\<rparr>) g1 = Inr g2 \<and>
      mean_reg g2 ! 256 = 6 \<and>
      reduce_sumsq exact \<lparr>batch_size = 2, hidden_size = 3, blockDim_x = 4, blockDim_y = 256,
             blockIdx_x = 0, threadIdx_x = 0, threadIdx_y = 0\<rparr> g2 = Inr g3 \<and>
      shared g3 ! 256 = 14)"
proof -
  let ?c = "\<lparr>batch_size = 2, hidden_size = 3, blockDim_x = 4, blockDim_y = 256,
             blockIdx_x = 0, threadIdx_x = 0, threadIdx_y = 0\<rparr> :: thread_ctx"
  let ?g = "\<lparr>shared = replicate 1024 7, mean_reg = replicate 1024 7,
         mem = \<lparr>mem_alpha = [1, 2, 3], mem_beta = [4, 5, 6], mem_x = [1, 2, 3, 4, 5, 9],
                mem_y = [0, 0, 0, 0, 0, 0], mem_cache = [0, 0, 0, 0]\<rparr>\<rparr> :: real block_state"
  have ok: "shape_ok ?c 2 3" by (simp add: shape_ok_def)
  have pow: "blockDim_y ?c = 2 ^ 8" by simp
  have l: "length (mem_x (mem ?g)) = 2 * 3" "length (shared ?g) = blockDim_x ?c * blockDim_y ?c"
    "length (mean_reg ?g) = blockDim_x ?c * blockDim_y ?c" by simp_all
  have t: "1 < blockDim_x ?c" "(1::nat) = blockDim_x ?c * blockIdx_x ?c + 1" "(1::nat) < 2" by simp_all
  have s: "{..<3::nat} = {0, 1, 2}" by auto
  have sum: "ref_sum [1, 2, 3, 4, 5, 9] 3 (Suc 0) = 18" by (simp add: ref_sum_def s)
  have mean: "ref_mean [1, 2, 3, 4, 5, 9] 3 (Suc 0) = 6" by (simp add: ref_mean_def sum)
  have sq: "ref_sumsq [1, 2, 3, 4, 5, 9] 3 (Suc 0) = 14" by (simp add: ref_sumsq_def mean s)
  from conjunct2 [OF two_phase_reduction [OF ok l l t, of exact 8]] pow obtain g1 g2 g3 where g:
    "reduce_sum exact ?c ?g = Inr g1"
    "shared g1 ! (1 * blockDim_y ?c) = ref_sum (mem_x (mem ?g)) 3 1"
    "for_each (seg_mean exact) (block_threads ?c) g1 = Inr g2"
    "\<forall>ty<blockDim_y ?c. mean_reg g2 ! (1 * blockDim_y ?c + ty) = ref_mean (mem_x (mem ?g)) 3 1"
    "reduce_sumsq exact ?c g2 = Inr g3"
    "shared g3 ! (1 * blockDim_y ?c) = ref_sumsq (mem_x (mem ?g)) 3 1"
    by blast
  have "shared g1 ! 256 = 18" using g(2) sum by simp
  moreover have "mean_reg g2 ! 256 = 6" using g(4) [rule_format, of 0] mean by simp
  moreover have "shared g3 ! 256 = 14" using g(6) sq by simp
  ultimately show ?thesis using ok g(1,3,5) by simp
qed

lemma rounded_statistics:
  "kernel_mean (binary32 fused rsq) [Fin 33554432, Fin 33554436] 2 256 0 = Fin 33554432"
  "kernel_sumsq (binary32 fused rsq) [Fin 33554432, Fin 33554436] 2 256 0 (Fin 33554432) = Fin 16"
  "add32 (div32 (Fin 16) (round32 2)) (round32 (1 / 100000)) = Fin (4194309 / 524288)"
proof -
  show "kernel_mean (binary32 fused rsq) [Fin 33554432, Fin 33554436] 2 256 0 = Fin 33554432"
    by (simp add: kernel_mean_def kernel_sum_def tree_rounds.simps tree_round_def strided_fold.simps
        add32_def div32_def round32_def overflow32_def round_to_def ilog2_def rne_def nearest_even_def
        pow2_def bitlen.simps)
  show "kernel_sumsq (binary32 fused rsq) [Fin 33554432, Fin 33554436] 2 256 0 (Fin 33554432) = Fin 16"
    by (cases fused)
       (simp_all add: kernel_sumsq_def tree_rounds.simps tree_round_def strided_fold.simps muladd32_def
        add32_def sub32_def neg32_def mul32_def round32_def overflow32_def round_to_def ilog2_def rne_def
        nearest_even_def pow2_def bitlen.simps)
  show "add32 (div32 (Fin 16) (round32 2)) (round32 (1 / 100000)) = Fin (4194309 / 524288)"
    by (simp add: add32_def div32_def round32_def overflow32_def round_to_def ilog2_def rne_def
        nearest_even_def pow2_def bitlen.simps)
qed

text \<open>
  Claim C3 does not hold in \<open>float\<close>.  The row \<open>(2\<^sup>2\<^sup>5, 2\<^sup>2\<^sup>5 + 4)\<close> consists of binary32
  numbers; its mean is \<open>2\<^sup>2\<^sup>5 + 2\<close> and its variance 4.  In \<open>float\<close> the sum of the row is a
  tie and rounds to \<open>2\<^sup>2\<^sup>6\<close>: the kernel stores the mean \<open>2\<^sup>2\<^sup>5\<close> at \<open>cache[0]\<close>, the squared
  differences from it are 0 and 16, and what is stored at \<open>cache[1]\<close> is \<open>rsqrt\<close> of the
  rounded \<open>8 + 1e-5\<close>, twice the argument \<open>variance + 1e-5\<close> of the claim.
\<close>

theorem cache_statistics_counterexample:
  "ref_mean [33554432, 33554436] 2 0 = 33554434 \<and>
   ref_variance [33554432, 33554436] 2 0 = 4 \<and>
   round32 33554432 = Fin 33554432 \<and> round32 33554436 = Fin 33554436 \<and>
   (\<forall>fused rsq junk. \<exists>d'.
      Run (binary32 fused rsq) junk 1 2
        \<lparr>mem_alpha = [Fin 1, Fin 1], mem_beta = [Fin 0, Fin 0],
         mem_x = [Fin 33554432, Fin 33554436], mem_y = [NaN, NaN], mem_cache = [NaN, NaN]\<rparr> = Inr d' \<and>
      mem_cache d' ! 0 = Fin 33554432 \<and>
      mem_cache d' ! 0 \<noteq> Fin (ref_mean [33554432, 33554436] 2 0) \<and>
      mem_cache d' ! 1 = rsq (Fin (4194309 / 524288)))"
proof -
  let ?d = "\<lparr>mem_alpha = [Fin 1, Fin 1], mem_beta = [Fin 0, Fin 0],
         mem_x = [Fin 33554432, Fin 33554436], mem_y = [NaN, NaN], mem_cache = [NaN, NaN]\<rparr>"
  have s: "{..<2::nat} = {0, 1}" by auto
  have mean: "ref_mean [33554432, 33554436] 2 0 = 33554434"
    by (simp add: ref_mean_def ref_sum_def s)
  have var: "ref_variance [33554432, 33554436] 2 0 = 4"
    by (simp add: ref_variance_def ref_sumsq_def mean s)
  have r1: "round32 33554432 = Fin 33554432"
    by (simp add: round32_def overflow32_def round_to_def ilog2_def rne_def nearest_even_def pow2_def bitlen.simps)
  have r2: "round32 33554436 = Fin 33554436"
    by (simp add: round32_def overflow32_def round_to_def ilog2_def rne_def nearest_even_def pow2_def bitlen.simps)
  have run: "\<exists>d'. Run (binary32 fused rsq) junk 1 2 ?d = Inr d' \<and>
      mem_cache d' ! 0 = Fin 33554432 \<and>
      mem_cache d' ! 0 \<noteq> Fin (ref_mean [33554432, 33554436] 2 0) \<and>
      mem_cache d' ! 1 = rsq (Fin (4194309 / 524288))" for fused rsq junk
  proof -
    let ?A = "binary32 fused rsq"
    have p: "launch_pre 1 2" by (simp add: launch_pre_def)
    have m: "mem_ok ?d 1 2" by (simp add: mem_ok_def)
    let ?d' = "?d\<lparr>mem_y := map (kernel_y ?A (mem_alpha ?d) (mem_beta ?d) (mem_x ?d) 2 256) [0 ..< 1 * 2],
                   mem_cache := map (kernel_cache ?A (mem_x ?d) 2 256) [0 ..< 2 * 1]\<rparr>"
    have run: "Run ?A junk 1 2 ?d = Inr ?d'"
      using Run_result [OF p m, of ?A junk] by simp
    have "mem_cache ?d' ! 0 = kernel_cache ?A (mem_x ?d) 2 256 0"
      by (simp del: upt_Suc add: upt_conv_Cons)
    then have c0: "mem_cache ?d' ! 0 = Fin 33554432"
      by (simp add: kernel_cache_def rounded_statistics(1))
    have "mem_cache ?d' ! 1 = kernel_cache ?A (mem_x ?d) 2 256 1"
      by (simp del: upt_Suc add: upt_conv_Cons)
    then have c1: "mem_cache ?d' ! 1 = rsq (Fin (4194309 / 524288))"
      by (simp add: kernel_cache_def kernel_invstd_def rounded_statistics)
    have "mem_cache ?d' ! 0 \<noteq> Fin (ref_mean [33554432, 33554436] 2 0)"
      by (simp only: c0 mean) simp
    with run c0 c1 show ?thesis by blast
  qed
  show ?thesis using mean var r1 r2 run by blast
qed

text \<open>
  Claim C3, amended.  Every run of the kernel stores the statistics of every row
  \<open>r < batch_size\<close> as it computes them in \<open>T\<close>: the mean (\<open>kernel_mean\<close>) at
  \<open>cache[2 * r]\<close> and the inverse standard deviation \<open>rsqrt(variance + 1e-5)\<close>
  (\<open>kernel_invstd\<close>) at \<open>cache[2 * r + 1]\<close>, the very two values the output row is computed
  with.  In exact arithmetic these are the row mean and \<open>rsqrt(variance(r) + 1e-5)\<close>.
  \<open>Run\<close> has no argument that could switch the stores off.  Shapes and buffers are as in
  claim C1.
\<close>

theorem cache_statistics:
  assumes "launch_pre B H" and "mem_ok d B H" and "mem_ok e B H" and "r < B"
  shows "(\<exists>d'. Run A junk (int B) (int H) d = Inr d' \<and>
            mem_cache d' ! (2 * r) = kernel_mean A (mem_x d) H 256 r \<and>
            mem_cache d' ! (2 * r + 1) = kernel_invstd A (mem_x d) H 256 r \<and>
            (\<forall>i<H. mem_y d' ! (r * H + i) =
               muladd_T A
                 (times_T A (minus_T A (mem_x d ! (r * H + i)) (mem_cache d' ! (2 * r)))
                            (mem_cache d' ! (2 * r + 1)))
                 (mem_alpha d ! i) (mem_beta d ! i))) \<and>
         (\<exists>e'. Run exact junk' (int B) (int H) e = Inr e' \<and>
            mem_cache e' ! (2 * r) = ref_mean (mem_x e) H r \<and>
            mem_cache e' ! (2 * r + 1) = rsqrt (ref_variance (mem_x e) H r + 1 / 100000) \<and>
            (\<forall>i<H. mem_y e' ! (r * H + i) =
               (mem_x e ! (r * H + i) - mem_cache e' ! (2 * r)) * mem_cache e' ! (2 * r + 1)
                 * mem_alpha e ! i + mem_beta e ! i))"
proof -
  have r1: "2 * r + 1 < 2 * B" and r0: "2 * r < 2 * B" using assms(4) by simp_all
  have 1: "\<exists>d'. Run A junk (int B) (int H) d = Inr d' \<and>
            mem_cache d' ! (2 * r) = kernel_mean A (mem_x d) H 256 r \<and>
            mem_cache d' ! (2 * r + 1) = kernel_invstd A (mem_x d) H 256 r \<and>
            (\<forall>i<H. mem_y d' ! (r * H + i) =
               muladd_T A
                 (times_T A (minus_T A (mem_x d ! (r * H + i)) (mem_cache d' ! (2 * r)))
                            (mem_cache d' ! (2 * r + 1)))
                 (mem_alpha d ! i) (mem_beta d ! i))"
  proof -
    let ?d' = "d\<lparr>mem_y := map (kernel_y A (mem_alpha d) (mem_beta d) (mem_x d) H 256) [0 ..< B * H],
                 mem_cache := map (kernel_cache A (mem_x d) H 256) [0 ..< 2 * B]\<rparr>"
    have run: "Run A junk (int B) (int H) d = Inr ?d'"
      using assms(1,2) by (rule Run_result)
    have c0: "mem_cache ?d' ! (2 * r) = kernel_mean A (mem_x d) H 256 r"
      using r0 by (simp add: kernel_cache_def del: upt_Suc)
    have c1: "mem_cache ?d' ! (2 * r + 1) = kernel_invstd A (mem_x d) H 256 r"
      using r1 by (simp add: kernel_cache_def del: upt_Suc)
    have y: "mem_y ?d' ! (r * H + i) =
               muladd_T A
                 (times_T A (minus_T A (mem_x d ! (r * H + i)) (mem_cache ?d' ! (2 * r)))
                            (mem_cache ?d' ! (2 * r + 1)))
                 (mem_alpha d ! i) (mem_beta d ! i)" if "i < H" for i
    proof -
      have "r * H + i < B * H" using assms(4) that by (rule cell_lt)
      then have "mem_y ?d' ! (r * H + i) = kernel_y A (mem_alpha d) (mem_beta d) (mem_x d) H 256 (r * H + i)"
        by (simp del: upt_Suc)
      then show ?thesis by (simp only: kernel_y_cell [OF that] c0 c1)
    qed
    show ?thesis using run c0 c1 y by blast
  qed
  have 2: "\<exists>e'. Run exact junk' (int B) (int H) e = Inr e' \<and>
            mem_cache e' ! (2 * r) = ref_mean (mem_x e) H r \<and>
            mem_cache e' ! (2 * r + 1) = rsqrt (ref_variance (mem_x e) H r + 1 / 100000) \<and>
            (\<forall>i<H. mem_y e' ! (r * H + i) =
               (mem_x e ! (r * H + i) - mem_cache e' ! (2 * r)) * mem_cache e' ! (2 * r + 1)
                 * mem_alpha e ! i + mem_beta e ! i)"
  proof -
    let ?e' = "e\<lparr>mem_y := map (ref_y (mem_alpha e) (mem_beta e) (mem_x e) H) [0 ..< B * H],
                 mem_cache := map (ref_cache (mem_x e) H) [0 ..< 2 * B]\<rparr>"
    have run: "Run exact junk' (int B) (int H) e = Inr ?e'"
      using assms(1,3) by (rule Run_exact)
    have c0: "mem_cache ?e' ! (2 * r) = ref_mean (mem_x e) H r"
      using r0 by (simp add: ref_cache_def del: upt_Suc)
    have c1: "mem_cache ?e' ! (2 * r + 1) = rsqrt (ref_variance (mem_x e) H r + 1 / 100000)"
      using r1 by (simp add: ref_cache_def ref_invstd_def del: upt_Suc)
    have y: "mem_y ?e' ! (r * H + i) =
                (mem_x e ! (r * H + i) - mem_cache ?e' ! (2 * r)) * mem_cache ?e' ! (2 * r + 1)
                  * mem_alpha e ! i + mem_beta e ! i" if "i < H" for i
    proof -
      have "r * H + i < B * H" using assms(4) that by (rule cell_lt)
      then have "mem_y ?e' ! (r * H + i) = ref_y (mem_alpha e) (mem_beta e) (mem_x e) H (r * H + i)"
        by (simp del: upt_Suc)
      then show ?thesis by (simp only: ref_y_cell [OF that] c0 c1)
    qed
    show ?thesis using run c0 c1 y by blast
  qed
  show ?thesis using 1 2 by (rule conjI)
qed

theorem cache_statistics_witness:
  "launch_pre 2 3 \<and>
   mem_ok \<lparr>mem_alpha = [1, 2, 3], mem_beta = [4, 5, 6], mem_x = [1, 2, 3, 4, 5, 9 :: real],
           mem_y = [0, 0, 0, 0, 0, 0], mem_cache = [0, 0, 0, 0]\<rparr> 2 3 \<and>
   (\<exists>d'. Run exact (\<lambda>k. 0) 2 3 \<lparr>mem_alpha = [1, 2, 3], mem_beta = [4, 5, 6], mem_x = [1, 2, 3, 4, 5, 9],
           mem_y = [0, 0, 0, 0, 0, 0], mem_cache = [0, 0, 0, 0]\<rparr> = Inr d' \<and>
      mem_cache d' ! 2 = 6 \<and> mem_cache d' ! 3 = rsqrt (14 / 3 + 1 / 100000))"
proof -
  let ?d = "\<lparr>mem_alpha = [1, 2, 3], mem_beta = [4, 5, 6], mem_x = [1, 2, 3, 4, 5, 9],
           mem_y = [0, 0, 0, 0, 0, 0], mem_cache = [0, 0, 0, 0]\<rparr> :: real device_mem"
  have p: "launch_pre 2 3" by (simp add: launch_pre_def)
  have m: "mem_ok ?d 2 3" by (simp add: mem_ok_def)
  have s: "{..<3::nat} = {0, 1, 2}" by auto
  have mean: "ref_mean [1, 2, 3, 4, 5, 9] 3 (Suc 0) = 6"
    by (simp add: ref_mean_def ref_sum_def s)
  have var: "ref_variance [1, 2, 3, 4, 5, 9] 3 (Suc 0) = 14 / 3"
    by (simp add: ref_variance_def ref_sumsq_def mean s)
  from conjunct2 [OF cache_statistics [OF p m m, of 1 exact "\<lambda>k. 0" "\<lambda>k. 0"]] obtain d' where
    "Run exact (\<lambda>k. 0) 2 3 ?d = Inr d'" "mem_cache d' ! 2 = 6" "mem_cache d' ! 3 = rsqrt (14 / 3 + 1 / 100000)"
    using mean var by auto
  then show ?thesis using p m by blast
qed

lemma row_length:
  fixes r B w :: nat
  assumes "r < B" "length buf = B * w"
  shows "length (take w (drop (r * w) buf)) = w"
proof -
  have "Suc r * w \<le> B * w" using assms(1) by (intro mult_le_mono1) simp
  then show ?thesis using assms(2) by simp
qed

lemma length_permute_rows:
  assumes "\<forall>r\<in>set ps. r < B" "length buf = B * w"
  shows "length (permute_rows ps w buf) = length ps * w"
  using assms(1)
proof (induction ps)
  case Nil
  then show ?case by (simp add: permute_rows_def)
next
  case (Cons p ps)
  then have "length (take w (drop (p * w) buf)) = w"
    using assms(2) by (intro row_length [of p B]) simp_all
  moreover have "length (permute_rows ps w buf) = length ps * w" using Cons by simp
  ultimately show ?case by (simp add: permute_rows_def)
qed

lemma nth_permute_rows:
  assumes "\<forall>r\<in>set ps. r < B" "length buf = B * w"
  shows "k < length ps \<Longrightarrow> i < w \<Longrightarrow> permute_rows ps w buf ! (k * w + i) = buf ! (ps ! k * w + i)"
  using assms(1)
proof (induction ps arbitrary: k)
  case Nil
  then show ?case by simp
next
  case (Cons p ps)
  have p: "p < B" using Cons.prems by simp
  have len: "length (take w (drop (p * w) buf)) = w"
    using p assms(2) by (rule row_length)
  have split: "permute_rows (p # ps) w buf = take w (drop (p * w) buf) @ permute_rows ps w buf"
    by (simp add: permute_rows_def)
  show ?case
  proof (cases k)
    case 0
    have "Suc p * w \<le> B * w" using p by (intro mult_le_mono1) simp
    then have "p * w + i < length buf" using Cons.prems(2) assms(2) by simp
    then have "take w (drop (p * w) buf) ! i = buf ! (p * w + i)"
      using Cons.prems(2) by simp
    then show ?thesis using 0 Cons.prems(2) len by (simp add: split nth_append)
  next
    case (Suc k')
    have "permute_rows ps w buf ! (k' * w + i) = buf ! (ps ! k' * w + i)"
      using Cons.IH [of k'] Cons.prems Suc by simp
    moreover have "Suc k' * w + i = w + (k' * w + i)" by simp
    ultimately show ?thesis using Suc len
      by (simp only: split nth_append_length_plus [of "take w (drop (p * w) buf)", unfolded len] nth_Cons_Suc)
  qed
qed

lemma strided_fold_cong:
  assumes "\<And>j. j < H \<Longrightarrow> xs ! (bi + j) = ys ! (bj + j)"
  shows "strided_fold f xs bi H st i acc = strided_fold f ys bj H st i acc"
proof (induction "H - i" arbitrary: i acc rule: less_induct)
  case less
  show ?case
  proof (cases "i < H \<and> 0 < st")
    case False
    have "strided_fold f xs bi H st i acc = acc"
      using False by (subst strided_fold.simps) auto
    moreover have "strided_fold f ys bj H st i acc = acc"
      using False by (subst strided_fold.simps) auto
    ultimately show ?thesis by simp
  next
    case True
    then have "strided_fold f xs bi H st (i + st) (f acc (xs ! (bi + i))) =
               strided_fold f ys bj H st (i + st) (f acc (xs ! (bi + i)))"
      by (intro less) linarith
    then show ?thesis
      using True assms [of i]
      by (simp add: strided_fold_step [of i H st f xs] strided_fold_step [of i H st f ys])
  qed
qed

lemma kernel_sum_permuted:
  assumes "\<forall>r\<in>set ps. r < B" "length xs = B * H" "k < length ps"
  shows "kernel_sum A (permute_rows ps H xs) H st k = kernel_sum A xs H st (ps ! k)"
proof -
  have "strided_fold (plus_T A) (permute_rows ps H xs) (k * H) H st t (zero_T A) =
        strided_fold (plus_T A) xs (ps ! k * H) H st t (zero_T A)" for t
    using nth_permute_rows [OF assms(1,2) assms(3)] by (intro strided_fold_cong) simp
  then show ?thesis by (simp add: kernel_sum_def)
qed

lemma kernel_mean_permuted:
  assumes "\<forall>r\<in>set ps. r < B" "length xs = B * H" "k < length ps"
  shows "kernel_mean A (permute_rows ps H xs) H st k = kernel_mean A xs H st (ps ! k)"
  by (simp add: kernel_mean_def kernel_sum_permuted [OF assms])

lemma kernel_sumsq_permuted:
  assumes "\<forall>r\<in>set ps. r < B" "length xs = B * H" "k < length ps"
  shows "kernel_sumsq A (permute_rows ps H xs) H st k m = kernel_sumsq A xs H st (ps ! k) m"
proof -
  let ?f = "\<lambda>acc v. muladd_T A (minus_T A v m) (minus_T A v m) acc"
  have "strided_fold ?f (permute_rows ps H xs) (k * H) H st t (zero_T A) =
        strided_fold ?f xs (ps ! k * H) H st t (zero_T A)" for t
    using nth_permute_rows [OF assms(1,2) assms(3)] by (intro strided_fold_cong) simp
  then show ?thesis by (simp add: kernel_sumsq_def)
qed

lemma kernel_invstd_permuted:
  assumes "\<forall>r\<in>set ps. r < B" "length xs = B * H" "k < length ps"
  shows "kernel_invstd A (permute_rows ps H xs) H st k = kernel_invstd A xs H st (ps ! k)"
  by (simp add: kernel_invstd_def kernel_mean_permuted [OF assms] kernel_sumsq_permuted [OF assms])

lemma kernel_y_permuted:
  assumes "\<forall>r\<in>set ps. r < B" "length xs = B * H" "k < length ps" "i < H"
  shows "kernel_y A al be (permute_rows ps H xs) H st (k * H + i) = kernel_y A al be xs H st (ps ! k * H + i)"
  using nth_permute_rows [OF assms(1,2) assms(3,4)] assms(4)
  by (simp add: kernel_y_def kernel_mean_permuted [OF assms(1,2,3)]
      kernel_invstd_permuted [OF assms(1,2,3)])

lemma kernel_cache_permuted:
  assumes "\<forall>r\<in>set ps. r < B" "length xs = B * H" "k < length ps" "i < 2"
  shows "kernel_cache A (permute_rows ps H xs) H st (k * 2 + i) = kernel_cache A xs H st (ps ! k * 2 + i)"
proof -
  have "(k * 2 + i) div 2 = k" "(ps ! k * 2 + i) div 2 = ps ! k"
       "even (k * 2 + i) = even i" "even (ps ! k * 2 + i) = even i"
    using assms(4) by simp_all
  then show ?thesis
    by (simp only: kernel_cache_def kernel_mean_permuted [OF assms(1,2,3)]
        kernel_invstd_permuted [OF assms(1,2,3)])
qed

lemma cell_split:
  fixes q w :: nat
  assumes "0 < w"
  shows "q = q div w * w + q mod w" "q mod w < w"
  using assms by simp_all

lemma permuted_map:
  assumes ps: "\<forall>r\<in>set ps. r < B" and len: "length ps = B" and w: "0 < w"
    and f: "\<And>k i. k < B \<Longrightarrow> i < w \<Longrightarrow> f (k * w + i) = g (ps ! k * w + i)"
  shows "map f [0 ..< B * w] = permute_rows ps w (map g [0 ..< B * w])"
proof (rule nth_equalityI)
  show "length (map f [0 ..< B * w]) = length (permute_rows ps w (map g [0 ..< B * w]))"
    using length_permute_rows [OF ps, of "map g [0 ..< B * w]" w] len by simp
next
  fix q assume "q < length (map f [0 ..< B * w])"
  then have q: "q < B * w" by simp
  let ?k = "q div w" and ?i = "q mod w"
  have k: "?k < B" using q by (rule div_lt_rows)
  have i: "?i < w" using w by simp
  have qe: "q = ?k * w + ?i" by simp
  have pk: "ps ! ?k < B" using ps k len by simp
  have "permute_rows ps w (map g [0 ..< B * w]) ! (?k * w + ?i) = map g [0 ..< B * w] ! (ps ! ?k * w + ?i)"
    using k len i by (intro nth_permute_rows [OF ps]) simp_all
  also have "\<dots> = g (ps ! ?k * w + ?i)"
    using cell_lt [OF pk i] by (simp del: upt_Suc)
  also have "\<dots> = f (?k * w + ?i)" using f [OF k i] by simp
  finally have "permute_rows ps w (map g [0 ..< B * w]) ! q = f q" by (simp only: qe [symmetric])
  then show "map f [0 ..< B * w] ! q = permute_rows ps w (map g [0 ..< B * w]) ! q"
    using q by (simp del: upt_Suc)
qed

text \<open>
  Claim C4.  For every permutation \<open>ps\<close> of the row indices (\<open>ps ! r\<close> is the row of the
  original input placed at row \<open>r\<close>), the run on the row-permuted input yields the
  row-permuted output and the row-permuted cache of the run on the original input: row
  \<open>r\<close> of the one is row \<open>ps ! r\<close> of the other, and \<open>alpha\<close>, \<open>beta\<close> and the input stay as
  they were.  This holds whatever the arithmetic of \<open>T\<close> is.  Shapes and buffers are as
  in claim C1; what shared memory holds at the two launches (\<open>junk\<close>, \<open>junk'\<close>) plays
  no part.
\<close>

theorem row_permutation:
  assumes "launch_pre B H" and "mem_ok d B H" and "distinct ps" and "set ps = {..<B}"
  shows "\<exists>d' dp'. Run A junk (int B) (int H) d = Inr d' \<and>
           Run A junk' (int B) (int H) (d\<lparr>mem_x := permute_rows ps H (mem_x d)\<rparr>) = Inr dp' \<and>
           mem_y dp' = permute_rows ps H (mem_y d') \<and>
           mem_cache dp' = permute_rows ps 2 (mem_cache d') \<and>
           (\<forall>r<B. \<forall>i<H. mem_y dp' ! (r * H + i) = mem_y d' ! (ps ! r * H + i)) \<and>
           mem_alpha dp' = mem_alpha d \<and> mem_beta dp' = mem_beta d \<and>
           mem_x dp' = permute_rows ps H (mem_x d)"
proof -
  let ?xp = "permute_rows ps H (mem_x d)"
  let ?dp = "d\<lparr>mem_x := ?xp\<rparr>"
  let ?Y = "kernel_y A (mem_alpha d) (mem_beta d) (mem_x d) H 256"
  let ?Yp = "kernel_y A (mem_alpha d) (mem_beta d) ?xp H 256"
  let ?C = "kernel_cache A (mem_x d) H 256"
  let ?Cp = "kernel_cache A ?xp H 256"
  let ?d' = "d\<lparr>mem_y := map ?Y [0 ..< B * H], mem_cache := map ?C [0 ..< 2 * B]\<rparr>"
  let ?dp' = "?dp\<lparr>mem_y := map ?Yp [0 ..< B * H], mem_cache := map ?Cp [0 ..< 2 * B]\<rparr>"
  have H: "0 < H" using assms(1) by (simp add: launch_pre_def)
  have ps: "\<forall>r\<in>set ps. r < B" using assms(4) by simp
  have len: "length ps = B" using assms(3,4) distinct_card [of ps] by simp
  have lx: "length (mem_x d) = B * H" using assms(2) by (simp add: mem_ok_def)
  have lxp: "length ?xp = B * H" using length_permute_rows [OF ps lx] len by simp
  have mp: "mem_ok ?dp B H" using assms(2) lxp by (simp add: mem_ok_def)
  have run: "Run A junk (int B) (int H) d = Inr ?d'" using assms(1,2) by (rule Run_result)
  have runp: "Run A junk' (int B) (int H) ?dp = Inr ?dp'"
    using Run_result [OF assms(1) mp, of A junk'] by simp
  have y: "map ?Yp [0 ..< B * H] = permute_rows ps H (map ?Y [0 ..< B * H])"
    using ps len H
  proof (rule permuted_map)
    fix k i assume "k < B" "i < H"
    then show "?Yp (k * H + i) = ?Y (ps ! k * H + i)"
      using len by (intro kernel_y_permuted [OF ps lx]) simp_all
  qed
  have "map ?Cp [0 ..< B * 2] = permute_rows ps 2 (map ?C [0 ..< B * 2])"
    using ps len
  proof (rule permuted_map)
    show "(0::nat) < 2" by simp
  next
    fix k i :: nat assume "k < B" "i < 2"
    then show "?Cp (k * 2 + i) = ?C (ps ! k * 2 + i)"
      using len by (intro kernel_cache_permuted [OF ps lx]) simp_all
  qed
  then have c: "map ?Cp [0 ..< 2 * B] = permute_rows ps 2 (map ?C [0 ..< 2 * B])"
    by (simp only: mult.commute [of 2 B])
  have cells: "mem_y ?dp' ! (r * H + i) = mem_y ?d' ! (ps ! r * H + i)" if "r < B" "i < H" for r i
  proof -
    have pr: "ps ! r < B" using ps that(1) len by simp
    have "?Yp (r * H + i) = ?Y (ps ! r * H + i)"
      using that len by (intro kernel_y_permuted [OF ps lx]) simp_all
    then show ?thesis
      using cell_lt [OF that] cell_lt [OF pr that(2)] by (simp del: upt_Suc)
  qed
  have "mem_y ?dp' = permute_rows ps H (mem_y ?d')" using y by simp
  moreover have "mem_cache ?dp' = permute_rows ps 2 (mem_cache ?d')" using c by simp
  moreover have "mem_alpha ?dp' = mem_alpha d" "mem_beta ?dp' = mem_beta d" "mem_x ?dp' = ?xp" by simp_all
  ultimately show ?thesis using run runp cells by blast
qed

theorem row_permutation_witness:
  "launch_pre 2 3 \<and>
   mem_ok \<lparr>mem_alpha = [1, 2, 3], mem_beta = [4, 5, 6], mem_x = [1, 2, 3, 4, 5, 9 :: real],
           mem_y = [0, 0, 0, 0, 0, 0], mem_cache = [0, 0, 0, 0]\<rparr> 2 3 \<and>
   distinct [1, 0 :: nat] \<and> set [1, 0 :: nat] = {..<2} \<and>
   permute_rows [1, 0] 3 [1, 2, 3, 4, 5, 9 :: real] = [4, 5, 9, 1, 2, 3] \<and>
   (\<exists>d' dp'.
      Run exact (\<lambda>k. 0) 2 3 \<lparr>mem_alpha = [1, 2, 3], mem_beta = [4, 5, 6], mem_x = [1, 2, 3, 4, 5, 9],
           mem_y = [0, 0, 0, 0, 0, 0], mem_cache = [0, 0, 0, 0]\<rparr> = Inr d' \<and>
      Run exact (\<lambda>k. 1) 2 3 \<lparr>mem_alpha = [1, 2, 3], mem_beta = [4, 5, 6], mem_x = [4, 5, 9, 1, 2, 3],
           mem_y = [0, 0, 0, 0, 0, 0], mem_cache = [0, 0, 0, 0]\<rparr> = Inr dp' \<and>
      mem_y dp' = permute_rows [1, 0] 3 (mem_y d') \<and>
      mem_cache dp' = permute_rows [1, 0] 2 (mem_cache d'))"
proof -
  let ?d = "\<lparr>mem_alpha = [1, 2, 3], mem_beta = [4, 5, 6], mem_x = [1, 2, 3, 4, 5, 9],
           mem_y = [0, 0, 0, 0, 0, 0], mem_cache = [0, 0, 0, 0]\<rparr> :: real device_mem"
  have p: "launch_pre 2 3" by (simp add: launch_pre_def)
  have m: "mem_ok ?d 2 3" by (simp add: mem_ok_def)
  have d: "distinct [1, 0 :: nat]" by simp
  have s: "set [1, 0 :: nat] = {..<2}" by auto
  have x: "permute_rows [1, 0] 3 [1, 2, 3, 4, 5, 9 :: real] = [4, 5, 9, 1, 2, 3]"
    by (simp add: permute_rows_def)
  from row_permutation [OF p m d s, of exact "\<lambda>k. 0" "\<lambda>k. 1"] obtain d' dp' where
    "Run exact (\<lambda>k. 0) 2 3 ?d = Inr d'"
    "Run exact (\<lambda>k. 1) 2 3 (?d\<lparr>mem_x := permute_rows [1, 0] 3 (mem_x ?d)\<rparr>) = Inr dp'"
    "mem_y dp' = permute_rows [1, 0] 3 (mem_y d')"
    "mem_cache dp' = permute_rows [1, 0] 2 (mem_cache d')"
    by auto
  then show ?thesis using p m d s x by (simp add: x)
qed








text \<open>
  Claim C6.  With \<open>time_steps = 0\<close> the loop of \<open>GruInference\<close> calls \<open>Iterate\<close> not once,
  and the hidden-state buffer holds what \<open>h_dev.zero()\<close> put there: \<open>batch_size * hidden_size\<close>
  zeros.  This holds whatever \<open>Iterate\<close> would do to device memory.
\<close>

theorem zero_length_sequence:
  assumes "gru_pre x R" and "dim3_2 x = 0"
  shows "\<exists>P s a. GruInference Iterate junk W R bx br x = Inr (P, s) \<and>
           calls s = [] \<and> h_dev P = Ptr a 0 \<and>
           heap s ! a = replicate (dim3_1 x * dim2_1 R) 0"
proof -
  have "GruInference Iterate junk W R bx br x =
        Inr (gru_ptrs0,
             \<lparr>allocated = [length (data2 W), length (data2 R), length (data1 bx), length (data1 br),
                            length (data3 x), dim3_1 x * dim2_1 R, 0, dim3_1 x * dim2_1 R * 3],
              heap = [data2 W, data2 R, data1 bx, data1 br, data3 x,
                      replicate (dim3_1 x * dim2_1 R) 0, [], map junk [0 ..< dim3_1 x * dim2_1 R * 3]],
              calls = []\<rparr>)"
    using GruInference_result [OF assms(1), of Iterate junk W bx br] assms(2) by simp
  moreover have "h_dev gru_ptrs0 = Ptr 5 0" by (simp add: gru_ptrs0_def)
  ultimately show ?thesis by simp
qed

theorem zero_length_sequence_witness:
  "gru_pre \<lparr>dim3_0 = 2, dim3_1 = 1, dim3_2 = 0, data3 = []\<rparr> \<lparr>dim2_0 = 6, dim2_1 = 2, data2 = replicate 12 1\<rparr> \<and>
   dim3_2 \<lparr>dim3_0 = 2, dim3_1 = 1, dim3_2 = 0, data3 = []\<rparr> = 0 \<and>
   (\<exists>P s a. GruInference (\<lambda>args h. []) (\<lambda>k. 7)
        \<lparr>dim2_0 = 6, dim2_1 = 2, data2 = replicate 12 1\<rparr> \<lparr>dim2_0 = 6, dim2_1 = 2, data2 = replicate 12 1\<rparr>
        \<lparr>dim1_0 = 6, data1 = replicate 6 1\<rparr> \<lparr>dim1_0 = 6, data1 = replicate 6 1\<rparr>
        \<lparr>dim3_0 = 2, dim3_1 = 1, dim3_2 = 0, data3 = []\<rparr> = Inr (P, s) \<and>
      calls s = [] \<and> h_dev P = Ptr a 0 \<and> heap s ! a = [0, 0])"
proof -
  let ?x = "\<lparr>dim3_0 = 2, dim3_1 = 1, dim3_2 = 0, data3 = []\<rparr> :: tensor3"
  let ?R = "\<lparr>dim2_0 = 6, dim2_1 = 2, data2 = replicate 12 1\<rparr> :: tensor2"
  have p: "gru_pre ?x ?R" by (simp add: gru_pre_def)
  have z: "dim3_2 ?x = 0" by simp
  have r: "replicate (dim3_1 ?x * dim2_1 ?R) (0::real) = [0, 0]" by (simp add: numeral_2_eq_2)
  from zero_length_sequence [OF p z, of "\<lambda>args h. []" "\<lambda>k. 7" ?R "\<lparr>dim1_0 = 6, data1 = replicate 6 1\<rparr>" "\<lparr>dim1_0 = 6, data1 = replicate 6 1\<rparr>"]
  show ?thesis using p unfolding r by simp
qed

lemma slices_disjoint:
  fixes t t' L :: nat
  assumes "t \<noteq> t'"
  shows "{t * L ..< t * L + L} \<inter> {t' * L ..< t' * L + L} = {}"
proof -
  have d: "{a * L ..< a * L + L} \<inter> {b * L ..< b * L + L} = {}" if "a < b" for a b :: nat
  proof -
    have "Suc a * L \<le> b * L" using that by (intro mult_le_mono1) simp
    then have "a * L + L \<le> b * L" by simp
    then show ?thesis by auto
  qed
  from assms consider "t < t'" | "t' < t" by linarith
  then show ?thesis
  proof cases
    case 1
    then show ?thesis by (rule d)
  next
    case 2
    then show ?thesis using d [of t' t] by (simp add: Int_commute)
  qed
qed

text \<open>
  Claim C7.  The input-side pre-activation buffer is one allocation of
  \<open>time_steps * batch_size * hidden_size * 3\<close> elements, made before the loop.  The call
  of \<open>Iterate\<close> at timestep \<open>t\<close> gets the address at offset \<open>t * batch_size * hidden_size * 3\<close>
  of it, so the slices (of \<open>batch_size * hidden_size * 3\<close> elements each) of two distinct
  timesteps are disjoint, and each lies inside the buffer.  The tensor dimensions are
  such that the products fit a C++ \<open>int\<close> (\<open>gru_pre\<close>).
\<close>

theorem input_preactivation_slices:
  assumes "gru_pre x R"
  shows "\<exists>P s a. GruInference Iterate junk W R bx br x = Inr (P, s) \<and>
           tmp_Wx_dev P = Ptr a 0 \<and>
           allocated s ! a = dim3_2 x * dim3_1 x * dim2_1 R * 3 \<and>
           length (calls s) = dim3_2 x \<and>
           (\<forall>t<dim3_2 x. arg_tmp_Wx (calls s ! t) = Ptr a (int (t * dim3_1 x * dim2_1 R * 3)) \<and>
              t * dim3_1 x * dim2_1 R * 3 + dim3_1 x * dim2_1 R * 3 \<le> allocated s ! a) \<and>
           (\<forall>t<dim3_2 x. \<forall>t'<dim3_2 x. t \<noteq> t' \<longrightarrow>
              {t * dim3_1 x * dim2_1 R * 3 ..< t * dim3_1 x * dim2_1 R * 3 + dim3_1 x * dim2_1 R * 3} \<inter>
              {t' * dim3_1 x * dim2_1 R * 3 ..< t' * dim3_1 x * dim2_1 R * 3 + dim3_1 x * dim2_1 R * 3} = {})"
proof -
  let ?T = "dim3_2 x" and ?B = "dim3_1 x" and ?I = "dim3_0 x" and ?H = "dim2_1 R"
  let ?L = "?B * ?H * 3"
  let ?s = "\<lparr>allocated = [length (data2 W), length (data2 R), length (data1 bx), length (data1 br),
                             length (data3 x), ?B * ?H, ?T * ?B * ?H * 3, ?B * ?H * 3],
               heap = fold (\<lambda>t h. Iterate (call_at gru_ptrs0 ?B ?I ?H t) h) [0 ..< ?T]
                        [data2 W, data2 R, data1 bx, data1 br, data3 x, replicate (?B * ?H) 0,
                         map junk [0 ..< ?T * ?B * ?H * 3], map junk [0 ..< ?B * ?H * 3]],
               calls = map (call_at gru_ptrs0 ?B ?I ?H) [0 ..< ?T]\<rparr>"
  have run: "GruInference Iterate junk W R bx br x = Inr (gru_ptrs0, ?s)"
    using assms by (rule GruInference_result)
  have off: "t * ?B * ?H * 3 = t * ?L" for t by (simp add: mult.assoc)
  have p: "tmp_Wx_dev gru_ptrs0 = Ptr 6 0" by (simp add: gru_ptrs0_def)
  have a: "allocated ?s ! 6 = ?T * ?B * ?H * 3" by simp
  have l: "length (calls ?s) = ?T" by simp
  have c: "arg_tmp_Wx (calls ?s ! t) = Ptr 6 (int (t * ?B * ?H * 3)) \<and>
           t * ?B * ?H * 3 + ?B * ?H * 3 \<le> allocated ?s ! 6" if t: "t < ?T" for t
  proof -
    have "arg_tmp_Wx (calls ?s ! t) = Ptr 6 (int (t * ?B * ?H * 3))"
      using t by (simp add: call_at_def gru_ptrs0_def ptr_add_def del: upt_Suc of_nat_mult)
    moreover have "Suc t * ?L \<le> ?T * ?L" using t by (intro mult_le_mono1) simp
    then have "t * ?B * ?H * 3 + ?B * ?H * 3 \<le> ?T * ?B * ?H * 3"
      by (simp only: off) simp
    ultimately show ?thesis by (simp only: a)
  qed
  have d: "{t * ?B * ?H * 3 ..< t * ?B * ?H * 3 + ?B * ?H * 3} \<inter>
           {t' * ?B * ?H * 3 ..< t' * ?B * ?H * 3 + ?B * ?H * 3} = {}" if "t \<noteq> t'" for t t'
    using slices_disjoint [OF that, of ?L] by (simp only: off)
  show ?thesis using run p a l c d by blast
qed

theorem input_preactivation_slices_witness:
  "gru_pre \<lparr>dim3_0 = 2, dim3_1 = 1, dim3_2 = 3, data3 = replicate 6 1\<rparr>
           \<lparr>dim2_0 = 6, dim2_1 = 2, data2 = replicate 12 1\<rparr> \<and>
   (\<exists>P s a. GruInference (\<lambda>args h. h) (\<lambda>k. 7)
        \<lparr>dim2_0 = 6, dim2_1 = 2, data2 = replicate 12 1\<rparr> \<lparr>dim2_0 = 6, dim2_1 = 2, data2 = replicate 12 1\<rparr>
        \<lparr>dim1_0 = 6, data1 = replicate 6 1\<rparr> \<lparr>dim1_0 = 6, data1 = replicate 6 1\<rparr>
        \<lparr>dim3_0 = 2, dim3_1 = 1, dim3_2 = 3, data3 = replicate 6 1\<rparr> = Inr (P, s) \<and>
      tmp_Wx_dev P = Ptr a 0 \<and> allocated s ! a = 18 \<and> length (calls s) = 3 \<and>
      arg_tmp_Wx (calls s ! 2) = Ptr a 12 \<and> {6 ..< 12 :: nat} \<inter> {12 ..< 18} = {})"
proof -
  let ?x = "\<lparr>dim3_0 = 2, dim3_1 = 1, dim3_2 = 3, data3 = replicate 6 1\<rparr> :: tensor3"
  let ?R = "\<lparr>dim2_0 = 6, dim2_1 = 2, data2 = replicate 12 1\<rparr> :: tensor2"
  let ?b = "\<lparr>dim1_0 = 6, data1 = replicate 6 1\<rparr> :: tensor1"
  have p: "gru_pre ?x ?R" by (simp add: gru_pre_def)
  from input_preactivation_slices [OF p, of "\<lambda>args h. h" "\<lambda>k. 7" ?R ?b ?b] obtain P s a where
    r: "GruInference (\<lambda>args h. h) (\<lambda>k. 7) ?R ?R ?b ?b ?x = Inr (P, s)"
      "tmp_Wx_dev P = Ptr a 0" "allocated s ! a = 18" "length (calls s) = 3"
    and c: "\<forall>t<3. arg_tmp_Wx (calls s ! t) = Ptr a (int (t * 1 * 2 * 3)) \<and>
              t * 1 * 2 * 3 + 1 * 2 * 3 \<le> allocated s ! a"
    and d: "\<forall>t<3. \<forall>t'<3. t \<noteq> t' \<longrightarrow>
              {t * 1 * 2 * 3 ..< t * 1 * 2 * 3 + 1 * 2 * 3} \<inter>
              {t' * 1 * 2 * 3 ..< t' * 1 * 2 * 3 + 1 * 2 * 3} = ({} :: nat set)"
    by auto
  have "arg_tmp_Wx (calls s ! 2) = Ptr a 12" using c [rule_format, of 2] by simp
  moreover have "{6 ..< 12 :: nat} \<inter> {12 ..< 18} = {}" using d [rule_format, of 1 2] by simp
  ultimately show ?thesis using p r by blast
qed

text \<open>
  Claim C8.  The recurrent pre-activation scratch is single-buffered: \<open>GruInference\<close>
  makes eight allocations, one of them (\<open>batch_size * hidden_size * 3\<close> elements) for
  \<open>tmp_Rh_dev\<close>, and every one of the \<open>time_steps\<close> calls of \<open>Iterate\<close> is handed that
  buffer's base address, so each timestep overwrites the region the one before it used.
\<close>

theorem recurrent_scratch_single_buffer:
  assumes "gru_pre x R"
  shows "\<exists>P s a. GruInference Iterate junk W R bx br x = Inr (P, s) \<and>
           tmp_Rh_dev P = Ptr a 0 \<and> length (allocated s) = 8 \<and> a < 8 \<and>
           allocated s ! a = dim3_1 x * dim2_1 R * 3 \<and>
           tmp_Wx_dev P \<noteq> Ptr a 0 \<and> h_dev P \<noteq> Ptr a 0 \<and>
           length (calls s) = dim3_2 x \<and>
           (\<forall>c\<in>set (calls s). arg_tmp_Rh c = Ptr a 0)"
proof -
  let ?T = "dim3_2 x" and ?B = "dim3_1 x" and ?I = "dim3_0 x" and ?H = "dim2_1 R"
  let ?s = "\<lparr>allocated = [length (data2 W), length (data2 R), length (data1 bx), length (data1 br),
                             length (data3 x), ?B * ?H, ?T * ?B * ?H * 3, ?B * ?H * 3],
               heap = fold (\<lambda>t h. Iterate (call_at gru_ptrs0 ?B ?I ?H t) h) [0 ..< ?T]
                        [data2 W, data2 R, data1 bx, data1 br, data3 x, replicate (?B * ?H) 0,
                         map junk [0 ..< ?T * ?B * ?H * 3], map junk [0 ..< ?B * ?H * 3]],
               calls = map (call_at gru_ptrs0 ?B ?I ?H) [0 ..< ?T]\<rparr>"
  have run: "GruInference Iterate junk W R bx br x = Inr (gru_ptrs0, ?s)"
    using assms by (rule GruInference_result)
  have p: "tmp_Rh_dev gru_ptrs0 = Ptr 7 0" "tmp_Wx_dev gru_ptrs0 \<noteq> Ptr 7 0" "h_dev gru_ptrs0 \<noteq> Ptr 7 0"
    by (simp_all add: gru_ptrs0_def)
  have a: "length (allocated ?s) = 8" "allocated ?s ! 7 = ?B * ?H * 3" "length (calls ?s) = ?T"
    by simp_all
  have c: "\<forall>c\<in>set (calls ?s). arg_tmp_Rh c = Ptr 7 0"
    by (auto simp: call_at_def gru_ptrs0_def simp del: upt_Suc)
  have "(7::nat) < 8" by simp
  then show ?thesis using run p a c by blast
qed

theorem recurrent_scratch_single_buffer_witness:
  "gru_pre \<lparr>dim3_0 = 2, dim3_1 = 1, dim3_2 = 3, data3 = replicate 6 1\<rparr>
           \<lparr>dim2_0 = 6, dim2_1 = 2, data2 = replicate 12 1\<rparr> \<and>
   (\<exists>P s a. GruInference (\<lambda>args h. h) (\<lambda>k. 7)
        \<lparr>dim2_0 = 6, dim2_1 = 2, data2 = replicate 12 1\<rparr> \<lparr>dim2_0 = 6, dim2_1 = 2, data2 = replicate 12 1\<rparr>
        \<lparr>dim1_0 = 6, data1 = replicate 6 1\<rparr> \<lparr>dim1_0 = 6, data1 = replicate 6 1\<rparr>
        \<lparr>dim3_0 = 2, dim3_1 = 1, dim3_2 = 3, data3 = replicate 6 1\<rparr> = Inr (P, s) \<and>
      tmp_Rh_dev P = Ptr a 0 \<and> allocated s ! a = 6 \<and> length (calls s) = 3 \<and>
      (\<forall>c\<in>set (calls s). arg_tmp_Rh c = Ptr a 0))"
proof -
  let ?x = "\<lparr>dim3_0 = 2, dim3_1 = 1, dim3_2 = 3, data3 = replicate 6 1\<rparr> :: tensor3"
  let ?R = "\<lparr>dim2_0 = 6, dim2_1 = 2, data2 = replicate 12 1\<rparr> :: tensor2"
  let ?b = "\<lparr>dim1_0 = 6, data1 = replicate 6 1\<rparr> :: tensor1"
  have p: "gru_pre ?x ?R" by (simp add: gru_pre_def)
  from recurrent_scratch_single_buffer [OF p, of "\<lambda>args h. h" "\<lambda>k. 7" ?R ?b ?b] obtain P s a where
    "GruInference (\<lambda>args h. h) (\<lambda>k. 7) ?R ?R ?b ?b ?x = Inr (P, s)"
    "tmp_Rh_dev P = Ptr a 0" "allocated s ! a = 6" "length (calls s) = 3"
    "\<forall>c\<in>set (calls s). arg_tmp_Rh c = Ptr a 0"
    by auto
  then show ?thesis using p by blast
qed

text \<open>
  Claim C9.  The grid is rounded up, \<open>gridDim.x = ceil(batch_size / 4)\<close>, so up to three
  rows of workers are in excess.  A worker whose row index is \<open>\<ge> batch_size\<close> returns
  before it touches memory: each of its segments leaves the state as it is.  The whole
  launch therefore completes without an access outside \<open>x\<close>, \<open>y\<close> (of
  \<open>batch_size * hidden_size\<close> elements) or \<open>cache\<close> (of \<open>2 * batch_size\<close> elements):
  in the model every such access is the fault \<open>OutOfBounds\<close>.  This holds whatever the
  arithmetic of \<open>T\<close> is.  Shapes and buffers are as in claim C1.
\<close>

theorem excess_workers_touch_nothing:
  assumes "launch_pre B H" and "mem_ok d B H"
  shows "B \<le> 4 * gridDim_x_of (int B) 4 \<and> 4 * gridDim_x_of (int B) 4 \<le> B + 3 \<and>
         (\<forall>c g s. returned c \<longrightarrow>
            seg_sum A c g = Inr g \<and> seg_tree A s c g = Inr g \<and> seg_mean A c g = Inr g \<and>
            seg_sumsq A c g = Inr g \<and> seg_out A c g = Inr g) \<and>
         (\<exists>d'. Run A junk (int B) (int H) d = Inr d' \<and>
            length (mem_x d') = B * H \<and> length (mem_y d') = B * H \<and> length (mem_cache d') = 2 * B)"
proof -
  have "2 * B \<le> 2 ^ 31" using assms(1) by (simp add: launch_pre_def)
  then have G: "gridDim_x_of (int B) 4 = (B + 3) div 4" by (rule gridDim_x_of_4)
  have 1: "B \<le> 4 * gridDim_x_of (int B) 4" "4 * gridDim_x_of (int B) 4 \<le> B + 3"
    unfolding G by simp_all
  have 2: "seg_sum A c g = Inr g \<and> seg_tree A s c g = Inr g \<and> seg_mean A c g = Inr g \<and>
           seg_sumsq A c g = Inr g \<and> seg_out A c g = Inr g" if "returned c" for c g s
    using that by (simp add: seg_sum_def seg_tree_def seg_mean_def seg_sumsq_def seg_out_def)
  have 3: "\<exists>d'. Run A junk (int B) (int H) d = Inr d' \<and>
            length (mem_x d') = B * H \<and> length (mem_y d') = B * H \<and> length (mem_cache d') = 2 * B"
    using Run_result [OF assms, of A junk] assms(2) by (simp add: mem_ok_def)
  show ?thesis using 1 2 3 by blast
qed

theorem excess_workers_touch_nothing_witness:
  "launch_pre 2 3 \<and>
   mem_ok \<lparr>mem_alpha = [1, 2, 3], mem_beta = [4, 5, 6], mem_x = [1, 2, 3, 4, 5, 9 :: real],
           mem_y = [0, 0, 0, 0, 0, 0], mem_cache = [0, 0, 0, 0]\<rparr> 2 3 \<and>
   returned \<lparr>batch_size = 2, hidden_size = 3, blockDim_x = 4, blockDim_y = 256,
             blockIdx_x = 0, threadIdx_x = 3, threadIdx_y = 0\<rparr> \<and>
   seg_out exact \<lparr>batch_size = 2, hidden_size = 3, blockDim_x = 4, blockDim_y = 256,
             blockIdx_x = 0, threadIdx_x = 3, threadIdx_y = 0\<rparr>
     \<lparr>shared = [], mean_reg = [], mem = \<lparr>mem_alpha = [], mem_beta = [], mem_x = [], mem_y = [], mem_cache = []\<rparr>\<rparr>
     = Inr \<lparr>shared = [], mean_reg = [], mem = \<lparr>mem_alpha = [], mem_beta = [], mem_x = [], mem_y = [], mem_cache = []\<rparr>\<rparr> \<and>
   (\<exists>d'. Run exact (\<lambda>k. 0) 2 3 \<lparr>mem_alpha = [1, 2, 3], mem_beta = [4, 5, 6], mem_x = [1, 2, 3, 4, 5, 9],
           mem_y = [0, 0, 0, 0, 0, 0], mem_cache = [0, 0, 0, 0]\<rparr> = Inr d' \<and> length (mem_y d') = 6)"
proof -
  let ?d = "\<lparr>mem_alpha = [1, 2, 3], mem_beta = [4, 5, 6], mem_x = [1, 2, 3, 4, 5, 9],
           mem_y = [0, 0, 0, 0, 0, 0], mem_cache = [0, 0, 0, 0]\<rparr> :: real device_mem"
  let ?c = "\<lparr>batch_size = 2, hidden_size = 3, blockDim_x = 4, blockDim_y = 256,
             blockIdx_x = 0, threadIdx_x = 3, threadIdx_y = 0\<rparr> :: thread_ctx"
  have p: "launch_pre 2 3" by (simp add: launch_pre_def)
  have m: "mem_ok ?d 2 3" by (simp add: mem_ok_def)
  have r: "returned ?c" by (simp add: returned_def batch_def s32_def u32_def)
  from excess_workers_touch_nothing [OF p m, of exact "\<lambda>k. 0"] r p m show ?thesis
    by (simp del: One_nat_def) blast
qed

text \<open>
  Claim C10.  The kernel writes only \<open>y\<close> and \<open>cache\<close>: whatever the arguments and the
  arithmetic of \<open>T\<close>, when the launch completes the input \<open>x\<close> and the vectors \<open>alpha\<close>
  and \<open>beta\<close> hold what they held before.
\<close>

theorem inputs_unchanged:
  assumes "Run A junk bsz hsz d = Inr d'"
  shows "mem_x d' = mem_x d \<and> mem_alpha d' = mem_alpha d \<and> mem_beta d' = mem_beta d"
proof -
  from assms have "same_inputs d d'"
    unfolding Run_def Let_def by (rule LayerNorm_frame)
  then show ?thesis by (simp add: same_inputs_def)
qed

theorem inputs_unchanged_witness:
  "Run exact (\<lambda>k. 0) 2 3 \<lparr>mem_alpha = [1, 2, 3], mem_beta = [4, 5, 6], mem_x = [1, 2, 3, 4, 5, 9],
           mem_y = [0, 0, 0, 0, 0, 0], mem_cache = [0, 0, 0, 0]\<rparr> =
   Inr \<lparr>mem_alpha = [1, 2, 3], mem_beta = [4, 5, 6], mem_x = [1, 2, 3, 4, 5, 9],
        mem_y = map (ref_y [1, 2, 3] [4, 5, 6] [1, 2, 3, 4, 5, 9] 3) [0 ..< 6],
        mem_cache = map (ref_cache [1, 2, 3, 4, 5, 9] 3) [0 ..< 4]\<rparr> \<and>
   mem_x \<lparr>mem_alpha = [1, 2, 3], mem_beta = [4, 5, 6], mem_x = [1, 2, 3, 4, 5, 9],
          mem_y = map (ref_y [1, 2, 3] [4, 5, 6] [1, 2, 3, 4, 5, 9] 3) [0 ..< 6],
          mem_cache = map (ref_cache [1, 2, 3, 4, 5, 9] 3) [0 ..< 4]\<rparr> = [1, 2, 3, 4, 5, 9]"
proof -
  let ?d = "\<lparr>mem_alpha = [1, 2, 3], mem_beta = [4, 5, 6], mem_x = [1, 2, 3, 4, 5, 9],
           mem_y = [0, 0, 0, 0, 0, 0], mem_cache = [0, 0, 0, 0]\<rparr> :: real device_mem"
  let ?d' = "\<lparr>mem_alpha = [1, 2, 3], mem_beta = [4, 5, 6], mem_x = [1, 2, 3, 4, 5, 9],
        mem_y = map (ref_y [1, 2, 3] [4, 5, 6] [1, 2, 3, 4, 5, 9] 3) [0 ..< 6],
        mem_cache = map (ref_cache [1, 2, 3, 4, 5, 9] 3) [0 ..< 4]\<rparr> :: real device_mem"
  have p: "launch_pre 2 3" by (simp add: launch_pre_def)
  have m: "mem_ok ?d 2 3" by (simp add: mem_ok_def)
  have run: "Run exact (\<lambda>k. 0) 2 3 ?d = Inr ?d'"
    using Run_exact [OF p m, of "\<lambda>k. 0"] by (simp del: upt_Suc)
  from inputs_unchanged [OF run] run show ?thesis by simp
qed

end
